theory Spec2Isabelle
  imports Main "HOL-Library.Sublist"
begin

section \<open>The scouting pipeline of auto-scout.js\<close>

text \<open>
  A shallow embedding of \<^verbatim>\<open>auto-scout.js\<close>: the deduplicator \<^verbatim>\<open>isDuplicate\<close>, the
  summarizer \<^verbatim>\<open>summarizeWithClaude\<close> and the three modes of \<^verbatim>\<open>main\<close> (apply, auto, dry run).

  Modelling decisions.
  \<^item> A JavaScript string is a \<open>string\<close> of 8-bit characters; \<^verbatim>\<open>toLowerCase\<close> maps the
    letters A to Z and \<^verbatim>\<open>trim\<close> removes the ASCII white space characters. Case
    mappings and white space outside ASCII are not modelled.
  \<^item> A field that may be absent (\<^verbatim>\<open>undefined\<close>) is a \<open>string option\<close>. Calling a
    string method on an absent value is a \<^verbatim>\<open>TypeError\<close> of the source and a branch of
    the model. Field values of other JavaScript types are outside the model.
  \<^item> The identifiers are JavaScript Numbers, that is IEEE doubles: \<^verbatim>\<open>parseInt\<close>,
    \<^verbatim>\<open>Math.max\<close>, \<^verbatim>\<open>maxId++\<close> and \<^verbatim>\<open>String(maxId)\<close> are modelled on the doubles of
    integral value, with the rounding of IEEE 754. The counter \<^verbatim>\<open>added\<close> and the list
    indices stay below the largest length of an array and are natural numbers.
  \<^item> \<^verbatim>\<open>JSON.parse\<close> on the summarizer's reply and on \<^verbatim>\<open>--articles=\<close>, and
    \<^verbatim>\<open>hebrewDate\<close>, are parameters of the model: the theorems hold for every such
    function.
  \<^item> The bodies of the five source adapters are not modelled: a run is given what each
    adapter returns or throws.
  \<^item> \<^verbatim>\<open>writeFileSync\<close> is taken to succeed: a run that reaches it replaces the file.
  \<^item> The console output is not modelled. The calls of the source adapters, the request
    to the summarization service and the write of the corpus file are events of a trace.
\<close>

subsection \<open>Strings\<close>

definition toLowerCase_char :: "char \<Rightarrow> char" where
  "toLowerCase_char c =
     (case map_of (zip ''ABCDEFGHIJKLMNOPQRSTUVWXYZ'' ''abcdefghijklmnopqrstuvwxyz'') c of
        None \<Rightarrow> c
      | Some d \<Rightarrow> d)"

definition toLowerCase :: "string \<Rightarrow> string" where
  "toLowerCase s = map toLowerCase_char s"

definition isWhiteSpace :: "char \<Rightarrow> bool" where
  "isWhiteSpace c = (c \<in> set [CHR 0x09, CHR 0x0A, CHR 0x0B, CHR 0x0C, CHR 0x0D, CHR '' ''])"

text \<open>\<^verbatim>\<open>s.trim()\<close>: white space is removed at both ends.\<close>

definition trim :: "string \<Rightarrow> string" where
  "trim s = rev (dropWhile isWhiteSpace (rev (dropWhile isWhiteSpace s)))"

text \<open>
  \<^verbatim>\<open>s.replace(/\/+$/, "")\<close>. The regular expression has no \<^verbatim>\<open>g\<close> and no \<^verbatim>\<open>m\<close> flag: the
  engine tries the start positions from left to right, and at a position the pattern
  matches when a slash stands there and only slashes follow up to the end of the input.
  The first match is replaced by the empty string.
\<close>

fun replace_trailing_slashes :: "string \<Rightarrow> string" where
  "replace_trailing_slashes [] = []"
| "replace_trailing_slashes (c # cs) =
     (if c = CHR ''/'' \<and> list_all (\<lambda>d. d = CHR ''/'') cs then []
      else c # replace_trailing_slashes cs)"

text \<open>\<^verbatim>\<open>xs.join(sep)\<close>\<close>

fun join :: "string \<Rightarrow> string list \<Rightarrow> string" where
  "join sep [] = []"
| "join sep [x] = x"
| "join sep (x # y # ys) = x @ sep @ join sep (y # ys)"

subsection \<open>Data model\<close>

text \<open>An entry of the persisted corpus (\<^verbatim>\<open>content/articles.json\<close>).\<close>

record entry =
  e_id :: "string option"
  e_title :: "string option"
  e_summary :: "string option"
  e_bottomLine :: "string option"
  e_category :: "string option"
  e_publishDate :: "string option"
  e_sourceUrl :: "string option"

text \<open>A summarized record: an element of the summarizer's array or of \<^verbatim>\<open>--articles=\<close>.\<close>

record article =
  a_title :: "string option"
  a_summary :: "string option"
  a_bottomLine :: "string option"
  a_category :: "string option"
  a_sourceUrl :: "string option"

text \<open>A candidate as the source adapters return it.\<close>

record candidate =
  c_title :: string
  c_source :: string
  c_link :: string
  c_pubDate :: string
  c_origin :: string

text \<open>\<^verbatim>\<open>v || ""\<close> on a string that may be absent.\<close>

definition or_empty :: "string option \<Rightarrow> string" where
  "or_empty v = (case v of None \<Rightarrow> [] | Some s \<Rightarrow> (if s = [] then [] else s))"

subsection \<open>The deduplicator\<close>

text \<open>\<^verbatim>\<open>xs.some(p)\<close>\<close>

fun array_some :: "('a \<Rightarrow> bool) \<Rightarrow> 'a list \<Rightarrow> bool" where
  "array_some p [] = False"
| "array_some p (x # xs) = (if p x then True else array_some p xs)"

definition isDuplicate :: "entry list \<Rightarrow> string \<Rightarrow> string \<Rightarrow> bool" where
  "isDuplicate existing url title =
     (let normalizedUrl = toLowerCase (replace_trailing_slashes url);
          normalizedTitle = trim (toLowerCase title)
      in array_some
           (\<lambda>a. let existingUrl = toLowerCase (replace_trailing_slashes (or_empty (e_sourceUrl a)));
                     existingTitle = trim (toLowerCase (or_empty (e_title a)))
                 in existingUrl = normalizedUrl \<or> existingTitle = normalizedTitle)
           existing)"

text \<open>
  The deduplicator as the specification words it: normalize a URL by stripping the
  trailing slashes and lowercasing, a title by lowercasing and trimming; a candidate is a
  duplicate when some entry has the same normalized URL or the same normalized title.
\<close>

definition strip_trailing_slashes_spec :: "string \<Rightarrow> string" where
  "strip_trailing_slashes_spec s = rev (dropWhile (\<lambda>c. c = CHR ''/'') (rev s))"

definition normalized_url_spec :: "string \<Rightarrow> string" where
  "normalized_url_spec s = toLowerCase (strip_trailing_slashes_spec s)"

definition normalized_title_spec :: "string \<Rightarrow> string" where
  "normalized_title_spec s = trim (toLowerCase s)"

definition entry_url_key :: "entry \<Rightarrow> string" where
  "entry_url_key e = normalized_url_spec (or_empty (e_sourceUrl e))"

definition entry_title_key :: "entry \<Rightarrow> string" where
  "entry_title_key e = normalized_title_spec (or_empty (e_title e))"

definition is_duplicate_spec :: "entry list \<Rightarrow> string \<Rightarrow> string \<Rightarrow> bool" where
  "is_duplicate_spec corpus url title =
     (\<exists>e \<in> set corpus. entry_url_key e = normalized_url_spec url
                      \<or> entry_title_key e = normalized_title_spec title)"

subsection \<open>Numbers and identifiers\<close>

definition isDigit :: "char \<Rightarrow> bool" where
  "isDigit c = (c \<in> set ''0123456789'')"

definition digit_value :: "char \<Rightarrow> nat" where
  "digit_value c =
     (case map_of (zip ''0123456789'' [0, 1, 2, 3, 4, 5, 6, 7, 8, 9]) c of
        None \<Rightarrow> 0
      | Some d \<Rightarrow> d)"

definition digit_char :: "nat \<Rightarrow> char" where
  "digit_char d = ''0123456789'' ! d"

text \<open>The decimal numeral of an integer that is not negative.\<close>

function decimal :: "int \<Rightarrow> string" where
  "decimal n =
     (if n < 10 then [digit_char (nat n)]
      else decimal (n div 10) @ [digit_char (nat (n mod 10))])"
  by pat_completeness auto
termination
  by (relation "measure nat") auto

declare decimal.simps [simp del]

fun digits_value :: "int \<Rightarrow> string \<Rightarrow> int" where
  "digits_value acc [] = acc"
| "digits_value acc (c # cs) = digits_value (10 * acc + int (digit_value c)) cs"

text \<open>
  The Number values that the identifiers of the source take: \<^verbatim>\<open>NaN\<close>, the two
  infinities, and the IEEE doubles of integral value (\<open>Finite i\<close>, where \<open>i\<close> is the
  value). \<^verbatim>\<open>parseInt\<close>, \<^verbatim>\<open>Math.max\<close> and \<^verbatim>\<open>++\<close> yield no other value from these.
  Negative zero is not told from zero: the source reads it only under \<^verbatim>\<open>|| 0\<close>, where
  both are falsy.
\<close>

datatype number = NaN | NegInfinity | Finite int | Infinity

function bit_length :: "int \<Rightarrow> nat" where
  "bit_length n = (if n \<le> 0 then 0 else Suc (bit_length (n div 2)))"
  by pat_completeness auto
termination
  by (relation "measure nat") auto

declare bit_length.simps [simp del]

text \<open>
  The integer with a significand of 53 bits that is nearest to \<open>n \<ge> 0\<close>, the one with
  the even significand when two are equally near (IEEE 754 round to nearest, ties to
  even).
\<close>

definition round_int :: "int \<Rightarrow> int" where
  "round_int n =
     (if bit_length n \<le> 53 then n
      else
        let s = bit_length n - 53; q = n div 2 ^ s; r = n mod 2 ^ s; half = 2 ^ (s - 1)
        in if half < r \<or> (r = half \<and> odd q) then (q + 1) * 2 ^ s else q * 2 ^ s)"

text \<open>
  The Number value of a mathematical integer: the rounded value, or an infinity when the
  rounded magnitude reaches \<open>2^1024\<close>.
\<close>

definition to_double :: "int \<Rightarrow> number" where
  "to_double i =
     (let v = round_int \<bar>i\<bar>
      in if bit_length v \<le> 1024 then Finite (if i < 0 then - v else v)
         else if i < 0 then NegInfinity else Infinity)"

text \<open>\<^verbatim>\<open>maxId++\<close>: the sum with one, rounded; \<^verbatim>\<open>NaN\<close> and the infinities stay.\<close>

definition increment :: "number \<Rightarrow> number" where
  "increment x = (case x of Finite n \<Rightarrow> to_double (n + 1) | _ \<Rightarrow> x)"

fun number_less :: "number \<Rightarrow> number \<Rightarrow> bool" where
  "number_less NaN b = False"
| "number_less a NaN = False"
| "number_less Infinity b = False"
| "number_less a Infinity = True"
| "number_less a NegInfinity = False"
| "number_less NegInfinity b = True"
| "number_less (Finite a) (Finite b) = (a < b)"

text \<open>\<^verbatim>\<open>Math.max(a, b)\<close>\<close>

definition Math_max :: "number \<Rightarrow> number \<Rightarrow> number" where
  "Math_max a b = (if a = NaN \<or> b = NaN then NaN else if number_less a b then b else a)"

text \<open>
  \<^verbatim>\<open>String(x)\<close> of a Number (Number::toString, radix 10). Of a positive double \<open>x\<close> it
  takes the decimal numeral with the fewest significant digits that still denotes \<open>x\<close>,
  the nearest to \<open>x\<close> when several do, and the one with the even last digit when two are
  equally near; \<open>closest_multiple x e\<close> is the value of that numeral when it ends in
  \<open>e\<close> zeros, and \<open>shortest\<close> tries the long runs of zeros first. A numeral of more
  than 21 digits is written in exponent notation. Up to \<open>2^53\<close> every integer is a
  double of its own and the numeral is the decimal numeral of \<open>x\<close>.
\<close>

definition closest_multiple :: "int \<Rightarrow> nat \<Rightarrow> int option" where
  "closest_multiple x e =
     (let p = 10 ^ e; lo = (x div p) * p; hi = lo + p;
          lo_ok = (round_int lo = x); hi_ok = (round_int hi = x)
      in if lo_ok \<and> hi_ok
         then (if x - lo < hi - x then Some lo
               else if hi - x < x - lo then Some hi
               else if even (x div p) then Some lo else Some hi)
         else if lo_ok then Some lo
         else if hi_ok then Some hi
         else None)"

fun shortest :: "int \<Rightarrow> nat \<Rightarrow> int" where
  "shortest x 0 = x"
| "shortest x (Suc e) =
     (case closest_multiple x (Suc e) of Some v \<Rightarrow> v | None \<Rightarrow> shortest x e)"

definition String_double :: "int \<Rightarrow> string" where
  "String_double n =
     (if n \<le> 2 ^ 53 then decimal n
      else
        let digits = decimal (shortest n (length (decimal n) - 1));
            significant = rev (dropWhile (\<lambda>c. c = CHR ''0'') (rev digits))
        in if length digits \<le> 21 then digits
           else (if length significant = 1 then significant
                 else hd significant # CHR ''.'' # tl significant)
                @ ''e+'' @ decimal (int (length digits) - 1))"

definition String_num :: "number \<Rightarrow> string" where
  "String_num x =
     (case x of
        NaN \<Rightarrow> ''NaN''
      | NegInfinity \<Rightarrow> ''-Infinity''
      | Finite i \<Rightarrow> if i < 0 then CHR ''-'' # String_double (- i) else String_double i
      | Infinity \<Rightarrow> ''Infinity'')"

text \<open>
  \<^verbatim>\<open>parseInt(s, 10)\<close>: leading white space is skipped, a sign is read, then the longest
  run of decimal digits; with no digit the result is \<^verbatim>\<open>NaN\<close>, otherwise the Number
  value of the integer that the digits denote. The value is correctly rounded, as V8
  computes it (ECMAScript allows an approximation from the 21st significant digit on).
\<close>

definition parseInt :: "string \<Rightarrow> number" where
  "parseInt s =
     (let t = dropWhile isWhiteSpace s;
          negative = (t \<noteq> [] \<and> hd t = CHR ''-'');
          r = (if t \<noteq> [] \<and> (hd t = CHR ''-'' \<or> hd t = CHR ''+'') then tl t else t);
          ds = takeWhile isDigit r
      in if ds = [] then NaN
         else to_double (if negative then - digits_value 0 ds else digits_value 0 ds))"

text \<open>
  \<^verbatim>\<open>parseInt(a.id, 10) || 0\<close>: an absent id is converted to the string
  \<^verbatim>\<open>"undefined"\<close> first; \<^verbatim>\<open>NaN\<close> and zero are falsy.
\<close>

definition or_zero :: "number \<Rightarrow> number" where
  "or_zero x = (if x = NaN \<or> x = Finite 0 then Finite 0 else x)"

definition parseInt_or_0 :: "string option \<Rightarrow> number" where
  "parseInt_or_0 v = or_zero (parseInt (case v of None \<Rightarrow> ''undefined'' | Some s \<Rightarrow> s))"

text \<open>\<^verbatim>\<open>existing.reduce((max, a) => Math.max(max, parseInt(a.id, 10) || 0), 0)\<close>\<close>

definition maxId_of :: "entry list \<Rightarrow> number" where
  "maxId_of existing =
     foldl (\<lambda>mx a. Math_max mx (parseInt_or_0 (e_id a))) (Finite 0) existing"

subsection \<open>The merge loop\<close>

datatype error =
    MissingApiKey
  | ApiError nat string
  | ResponseTruncated
  | NoJsonArray
  | JsonParseFailed
  | TypeError
  | SyntaxError
  | FetchFailed string

text \<open>
  The two loops of \<^verbatim>\<open>main\<close> (apply mode and auto mode) differ in one field: auto mode
  stores \<^verbatim>\<open>article.bottomLine || ""\<close>, apply mode stores \<^verbatim>\<open>article.bottomLine\<close>.
\<close>

datatype mode = Apply | Auto

definition make_entry :: "mode \<Rightarrow> number \<Rightarrow> string \<Rightarrow> article \<Rightarrow> entry" where
  "make_entry m maxId date article =
     \<lparr> e_id = Some (String_num maxId),
       e_title = a_title article,
       e_summary = a_summary article,
       e_bottomLine = (case m of Apply \<Rightarrow> a_bottomLine article
                                | Auto \<Rightarrow> Some (or_empty (a_bottomLine article))),
       e_category = a_category article,
       e_publishDate = Some date,
       e_sourceUrl = a_sourceUrl article \<rparr>"

record merge_state =
  existing :: "entry list"
  maxId :: number
  added :: nat

text \<open>
  \<^verbatim>\<open>for (const article of newArticles) { ... }\<close>. \<^verbatim>\<open>isDuplicate\<close> calls
  \<^verbatim>\<open>url.replace\<close> and then \<^verbatim>\<open>title.toLowerCase\<close>: on an absent value that is a
  \<^verbatim>\<open>TypeError\<close>, which leaves the loop. \<open>hebrewDate n\<close> is the date that
  \<^verbatim>\<open>hebrewDate()\<close> returns at its call number \<open>n\<close> of the run.
\<close>

fun merge_loop :: "mode \<Rightarrow> (nat \<Rightarrow> string) \<Rightarrow> article list \<Rightarrow> merge_state \<Rightarrow> error + merge_state" where
  "merge_loop m hebrewDate [] st = Inr st"
| "merge_loop m hebrewDate (article # rest) st =
     (case a_sourceUrl article of
        None \<Rightarrow> Inl TypeError
      | Some url \<Rightarrow>
          (case a_title article of
             None \<Rightarrow> Inl TypeError
           | Some title \<Rightarrow>
               if isDuplicate (existing st) url title then merge_loop m hebrewDate rest st
               else
                 let maxId' = increment (maxId st);
                     entry = make_entry m maxId' (hebrewDate (added st)) article
                 in merge_loop m hebrewDate rest
                      \<lparr> existing = entry # existing st, maxId = maxId', added = added st + 1 \<rparr>))"

definition merge :: "mode \<Rightarrow> (nat \<Rightarrow> string) \<Rightarrow> entry list \<Rightarrow> article list \<Rightarrow> error + merge_state" where
  "merge m hebrewDate corpus newArticles =
     merge_loop m hebrewDate newArticles
       \<lparr> existing = corpus, maxId = maxId_of corpus, added = 0 \<rparr>"

subsection \<open>The persisted corpus and the environment\<close>

text \<open>
  The file \<^verbatim>\<open>content/articles.json\<close>: it is missing or unreadable (\<^verbatim>\<open>readFileSync\<close>
  throws), or its text is not JSON (\<^verbatim>\<open>JSON.parse\<close> throws), or it is the document of a
  list of entries.
\<close>

datatype corpus_file = Missing | Unreadable | Invalid string | Document "entry list"

fun loadExisting :: "corpus_file \<Rightarrow> entry list" where
  "loadExisting Missing = []"
| "loadExisting Unreadable = []"
| "loadExisting (Invalid text) = []"
| "loadExisting (Document entries) = entries"

record world =
  content_file :: corpus_file
  ANTHROPIC_API_KEY :: "string option"

text \<open>
  What the network answers in one run. The five source adapters are asynchronous
  functions without arguments: each one either returns its candidates or throws.
  \<open>res_data\<close> is \<^verbatim>\<open>await res.json()\<close> read at \<^verbatim>\<open>content[0].text\<close> and
  \<^verbatim>\<open>stop_reason\<close>, or the error that reading throws.
\<close>

record api_response =
  res_ok :: bool
  res_status :: nat
  res_body :: string
  res_data :: "error + string \<times> string"

record network =
  fetchGoogleNews :: "error + candidate list"
  fetchScienceDaily :: "error + candidate list"
  fetchMedicalNewsToday :: "error + candidate list"
  fetchPubMed :: "error + candidate list"
  fetchOpenAlex :: "error + candidate list"
  anthropic :: "error + api_response"

text \<open>
  \<open>SourceFetch name\<close>: the adapter of that source is called, which issues its first
  \<^verbatim>\<open>fetch\<close> at once. \<open>SummarizeRequest key content\<close>: the request to the
  summarization service. \<open>CorpusWrite entries\<close>: \<^verbatim>\<open>writeFileSync\<close> of the corpus.
\<close>

datatype event =
    SourceFetch string
  | SummarizeRequest string string
  | CorpusWrite "entry list"

record run =
  outcome :: "error + unit"
  file_after :: corpus_file
  trace :: "event list"

subsection \<open>The summarizer\<close>

definition MAX_ARTICLES_PER_BATCH :: nat where
  "MAX_ARTICLES_PER_BATCH = 10"

definition item_block :: "candidate \<Rightarrow> nat \<Rightarrow> string" where
  "item_block item i =
     ''['' @ String_num (to_double (int i + 1)) @ ''] Title: '' @ c_title item @ [CHR 0x0A]
     @ ''    Source: '' @ c_source item @ [CHR 0x0A]
     @ ''    URL: '' @ c_link item @ [CHR 0x0A]
     @ ''    Date: '' @ c_pubDate item"

definition itemsList :: "candidate list \<Rightarrow> string" where
  "itemsList batch =
     join [CHR 0x0A, CHR 0x0A] (map (\<lambda>(i, item). item_block item i) (enumerate 0 batch))"

text \<open>
  \<^verbatim>\<open>text.match(/\[[\s\S]*\]/)\<close>. At a start position holding an opening bracket the
  greedy star takes the rest of the input and gives characters back until a closing
  bracket ends the match; with no closing bracket the next start position is tried.
\<close>

fun upto_last_close :: "string \<Rightarrow> string option" where
  "upto_last_close [] = None"
| "upto_last_close (c # cs) =
     (case upto_last_close cs of
        Some m \<Rightarrow> Some (c # m)
      | None \<Rightarrow> if c = CHR '']'' then Some [c] else None)"

fun match_json_array :: "string \<Rightarrow> string option" where
  "match_json_array [] = None"
| "match_json_array (c # cs) =
     (if c = CHR ''[''
      then (case upto_last_close cs of
              Some m \<Rightarrow> Some (c # m)
            | None \<Rightarrow> match_json_array cs)
      else match_json_array cs)"

text \<open>
  The part of \<^verbatim>\<open>summarizeWithClaude\<close> after the request is answered. \<open>JSON_parse\<close> is
  \<^verbatim>\<open>JSON.parse\<close> on a text that starts with an opening bracket: \<open>None\<close> when it
  throws, the array of records otherwise.
\<close>

definition read_reply :: "(string \<Rightarrow> article list option) \<Rightarrow> error + api_response \<Rightarrow> error + article list" where
  "read_reply JSON_parse answer =
     (case answer of
        Inl e \<Rightarrow> Inl e
      | Inr res \<Rightarrow>
          if \<not> res_ok res then Inl (ApiError (res_status res) (res_body res))
          else
            (case res_data res of
               Inl e \<Rightarrow> Inl e
             | Inr (content_text, stopReason) \<Rightarrow>
                 let text = trim content_text in
                 if stopReason = ''max_tokens'' then Inl ResponseTruncated
                 else
                   (case match_json_array text of
                      None \<Rightarrow> Inl NoJsonArray
                    | Some jsonMatch \<Rightarrow>
                        (case JSON_parse jsonMatch of
                           None \<Rightarrow> Inl JsonParseFailed
                         | Some records \<Rightarrow> Inr records))))"

text \<open>
  \<^verbatim>\<open>summarizeWithClaude(items)\<close>: its result and the requests it sends. The request
  carries the key and the numbered list of the batch (the fixed instruction text in front
  of the list is left out).
\<close>

definition summarizeWithClaude ::
  "(string \<Rightarrow> article list option) \<Rightarrow> string option \<Rightarrow> error + api_response \<Rightarrow> candidate list
     \<Rightarrow> (error + article list) \<times> event list" where
  "summarizeWithClaude JSON_parse apiKey answer items =
     (case apiKey of
        None \<Rightarrow> (Inl MissingApiKey, [])
      | Some key \<Rightarrow>
          if key = [] then (Inl MissingApiKey, [])
          else
            let batch = take MAX_ARTICLES_PER_BATCH items
            in (read_reply JSON_parse answer, [SummarizeRequest key (itemsList batch)]))"

subsection \<open>The aggregator\<close>

definition sources :: "network \<Rightarrow> (string \<times> (error + candidate list)) list" where
  "sources net =
     [(''Google News'', fetchGoogleNews net),
      (''ScienceDaily'', fetchScienceDaily net),
      (''Medical News Today'', fetchMedicalNewsToday net),
      (''PubMed'', fetchPubMed net),
      (''OpenAlex'', fetchOpenAlex net)]"

definition source_names :: "string list" where
  "source_names = [''Google News'', ''ScienceDaily'', ''Medical News Today'', ''PubMed'', ''OpenAlex'']"

text \<open>\<^verbatim>\<open>try { return await s.fn() } catch (e) { return [] }\<close>\<close>

definition try_source :: "string \<times> (error + candidate list) \<Rightarrow> error + candidate list" where
  "try_source s = (case snd s of Inr items \<Rightarrow> Inr items | Inl e \<Rightarrow> Inr [])"

text \<open>\<^verbatim>\<open>Promise.all\<close>: the list of the values, or a rejection when a promise rejects.\<close>

fun Promise_all :: "(error + 'a) list \<Rightarrow> error + 'a list" where
  "Promise_all [] = Inr []"
| "Promise_all (p # ps) =
     (case p of
        Inl e \<Rightarrow> Inl e
      | Inr v \<Rightarrow> (case Promise_all ps of Inl e \<Rightarrow> Inl e | Inr vs \<Rightarrow> Inr (v # vs)))"

definition aggregate :: "network \<Rightarrow> error + candidate list" where
  "aggregate net =
     (case Promise_all (map try_source (sources net)) of
        Inl e \<Rightarrow> Inl e
      | Inr results \<Rightarrow> Inr (concat results))"

subsection \<open>main\<close>

definition newItems_of :: "entry list \<Rightarrow> candidate list \<Rightarrow> candidate list" where
  "newItems_of corpus allItems =
     filter (\<lambda>item. \<not> isDuplicate corpus (c_link item) (c_title item)) allItems"

text \<open>Mode 1: \<^verbatim>\<open>--apply\<close> with \<^verbatim>\<open>--articles=JSON\<close>.\<close>

definition main_apply ::
  "(string \<Rightarrow> article list option) \<Rightarrow> (nat \<Rightarrow> string) \<Rightarrow> string \<Rightarrow> world \<Rightarrow> run" where
  "main_apply JSON_parse hebrewDate articlesJson w =
     (case JSON_parse (drop (length ''--articles='') articlesJson) of
        None \<Rightarrow> \<lparr> outcome = Inl SyntaxError, file_after = content_file w, trace = [] \<rparr>
      | Some newArticles \<Rightarrow>
          (case merge Apply hebrewDate (loadExisting (content_file w)) newArticles of
             Inl e \<Rightarrow> \<lparr> outcome = Inl e, file_after = content_file w, trace = [] \<rparr>
           | Inr st \<Rightarrow>
               \<lparr> outcome = Inr (), file_after = Document (existing st),
                 trace = [CorpusWrite (existing st)] \<rparr>))"

text \<open>The fetch from all sources, then mode 2 (\<^verbatim>\<open>--auto\<close>) or mode 3 (dry run).\<close>

definition main_scout ::
  "(string \<Rightarrow> article list option) \<Rightarrow> (nat \<Rightarrow> string) \<Rightarrow> bool \<Rightarrow> world \<Rightarrow> network \<Rightarrow> run" where
  "main_scout JSON_parse hebrewDate autoMode w net =
     (let corpus = loadExisting (content_file w);
          fetches = map (\<lambda>s. SourceFetch (fst s)) (sources net)
      in case aggregate net of
           Inl e \<Rightarrow> \<lparr> outcome = Inl e, file_after = content_file w, trace = fetches \<rparr>
         | Inr allItems \<Rightarrow>
             let newItems = newItems_of corpus allItems in
             if newItems = [] then \<lparr> outcome = Inr (), file_after = content_file w, trace = fetches \<rparr>
             else if autoMode then
               (case summarizeWithClaude JSON_parse (ANTHROPIC_API_KEY w) (anthropic net) newItems of
                  (Inl e, requests) \<Rightarrow>
                    \<lparr> outcome = Inl e, file_after = content_file w, trace = fetches @ requests \<rparr>
                | (Inr summarized, requests) \<Rightarrow>
                    (case merge Auto hebrewDate corpus summarized of
                       Inl e \<Rightarrow>
                         \<lparr> outcome = Inl e, file_after = content_file w, trace = fetches @ requests \<rparr>
                     | Inr st \<Rightarrow>
                         \<lparr> outcome = Inr (), file_after = Document (existing st),
                           trace = fetches @ requests @ [CorpusWrite (existing st)] \<rparr>))
             else \<lparr> outcome = Inr (), file_after = content_file w, trace = fetches \<rparr>)"

definition main ::
  "(string \<Rightarrow> article list option) \<Rightarrow> (nat \<Rightarrow> string) \<Rightarrow> string list \<Rightarrow> world \<Rightarrow> network \<Rightarrow> run" where
  "main JSON_parse hebrewDate args w net =
     (let autoMode = (''--auto'' \<in> set args);
          applyMode = (''--apply'' \<in> set args);
          articlesJson = find (\<lambda>a. prefix ''--articles='' a) args
      in case articlesJson of
           Some text \<Rightarrow>
             if applyMode then main_apply JSON_parse hebrewDate text w
             else main_scout JSON_parse hebrewDate autoMode w net
         | None \<Rightarrow> main_scout JSON_parse hebrewDate autoMode w net)"

subsection \<open>Notions of the specification\<close>

text \<open>
  The entries that a merge inserts, in the order of their insertion, when \<open>ins\<close> are
  the accepted records, \<open>mx\<close> is the running maximum and \<open>ad\<close> the inserted counter
  before the first of them.
\<close>

fun inserted_entries :: "mode \<Rightarrow> (nat \<Rightarrow> string) \<Rightarrow> number \<Rightarrow> nat \<Rightarrow> article list \<Rightarrow> entry list" where
  "inserted_entries m hebrewDate mx ad [] = []"
| "inserted_entries m hebrewDate mx ad (a # rest) =
     make_entry m (increment mx) (hebrewDate ad) a
       # inserted_entries m hebrewDate (increment mx) (Suc ad) rest"

text \<open>
  The records that a merge accepts: each record of the input, in input order, whose
  normalized URL and normalized title both differ from those of the corpus and of the
  records accepted before it.
\<close>

definition article_url_key :: "article \<Rightarrow> string" where
  "article_url_key a = normalized_url_spec (or_empty (a_sourceUrl a))"

definition article_title_key :: "article \<Rightarrow> string" where
  "article_title_key a = normalized_title_spec (or_empty (a_title a))"

fun accepted :: "string list \<Rightarrow> string list \<Rightarrow> article list \<Rightarrow> article list" where
  "accepted urls titles [] = []"
| "accepted urls titles (a # rest) =
     (if article_url_key a \<in> set urls \<or> article_title_key a \<in> set titles
      then accepted urls titles rest
      else a # accepted (article_url_key a # urls) (article_title_key a # titles) rest)"

definition accepted_by :: "entry list \<Rightarrow> article list \<Rightarrow> article list" where
  "accepted_by corpus arts =
     accepted (map entry_url_key corpus) (map entry_title_key corpus) arts"

definition id_number :: "entry \<Rightarrow> number" where
  "id_number e = parseInt_or_0 (e_id e)"

text \<open>What a source contributes: its candidates, or nothing when it fails.\<close>

definition source_yield :: "error + candidate list \<Rightarrow> candidate list" where
  "source_yield r = (case r of Inl e \<Rightarrow> [] | Inr items \<Rightarrow> items)"

definition fetched :: "network \<Rightarrow> candidate list" where
  "fetched net = concat (map (\<lambda>s. source_yield (snd s)) (sources net))"

text \<open>The array-shaped substring of a text: from its first opening bracket to its last
  closing bracket, when a closing bracket follows the first opening one.\<close>

definition array_substring :: "string \<Rightarrow> string option" where
  "array_substring text =
     (let s = dropWhile (\<lambda>c. c \<noteq> CHR ''['') text
      in if CHR '']'' \<in> set s
         then Some (rev (dropWhile (\<lambda>c. c \<noteq> CHR '']'') (rev s)))
         else None)"

text \<open>The invocation modes, as \<^verbatim>\<open>main\<close> reads them from the arguments.\<close>

definition runs_apply :: "string list \<Rightarrow> bool" where
  "runs_apply args =
     (''--apply'' \<in> set args \<and> find (\<lambda>a. prefix ''--articles='' a) args \<noteq> None)"

definition runs_auto :: "string list \<Rightarrow> bool" where
  "runs_auto args = (''--auto'' \<in> set args \<and> \<not> runs_apply args)"

fun is_request :: "event \<Rightarrow> bool" where
  "is_request (SummarizeRequest key content) = True"
| "is_request ev = False"

fun is_write :: "event \<Rightarrow> bool" where
  "is_write (CorpusWrite entries) = True"
| "is_write ev = False"

text \<open>The five validation conditions of the summarization.\<close>

definition missing_credential :: "world \<Rightarrow> bool" where
  "missing_credential w = (ANTHROPIC_API_KEY w = None \<or> ANTHROPIC_API_KEY w = Some [])"







subsection \<open>A reader for arrays of flat records\<close>

text \<open>
  \<^verbatim>\<open>JSON.parse\<close> is a parameter of the model. For concrete runs it is instantiated by
  this reader, which accepts the JSON texts that are an array of objects whose members
  are strings without escape sequences, and is \<open>None\<close> on every other text.
\<close>

datatype token = LBracket | RBracket | LBrace | RBrace | Colon | Comma | StringToken string

definition punctuation :: "char \<Rightarrow> token option" where
  "punctuation c =
     (if c = CHR ''['' then Some LBracket
      else if c = CHR '']'' then Some RBracket
      else if c = CHR ''{'' then Some LBrace
      else if c = CHR ''}'' then Some RBrace
      else if c = CHR '':'' then Some Colon
      else if c = CHR '','' then Some Comma
      else None)"

definition isJsonSpace :: "char \<Rightarrow> bool" where
  "isJsonSpace c = (c \<in> set [CHR 0x09, CHR 0x0A, CHR 0x0D, CHR '' ''])"

text \<open>The first argument holds the characters of the string being read, latest first.\<close>

fun tokens :: "string option \<Rightarrow> string \<Rightarrow> token list option" where
  "tokens None [] = Some []"
| "tokens (Some acc) [] = None"
| "tokens None (c # cs) =
     (if c = CHR 0x22 then tokens (Some []) cs
      else if isJsonSpace c then tokens None cs
      else (case punctuation c of
              None \<Rightarrow> None
            | Some t \<Rightarrow> map_option (\<lambda>ts. t # ts) (tokens None cs)))"
| "tokens (Some acc) (c # cs) =
     (if c = CHR 0x22 then map_option (\<lambda>ts. StringToken (rev acc) # ts) (tokens None cs)
      else if c = CHR 0x5C \<or> of_char c < (32 :: nat) then None
      else tokens (Some (c # acc)) cs)"

datatype position =
    ArrayStart | ElementNext | AfterElement | ObjectStart | MemberNext
  | AfterKey string | AfterColon string | AfterMember | Finished

fun records :: "position \<Rightarrow> (string \<times> string) list list \<Rightarrow> (string \<times> string) list \<Rightarrow> token list
    \<Rightarrow> (string \<times> string) list list option" where
  "records pos objects members [] = (if pos = Finished then Some (rev objects) else None)"
| "records pos objects members (t # ts) =
     (case (pos, t) of
        (ArrayStart, RBracket) \<Rightarrow> records Finished objects [] ts
      | (ArrayStart, LBrace) \<Rightarrow> records ObjectStart objects [] ts
      | (ElementNext, LBrace) \<Rightarrow> records ObjectStart objects [] ts
      | (ObjectStart, RBrace) \<Rightarrow> records AfterElement (rev members # objects) [] ts
      | (ObjectStart, StringToken k) \<Rightarrow> records (AfterKey k) objects members ts
      | (MemberNext, StringToken k) \<Rightarrow> records (AfterKey k) objects members ts
      | (AfterKey k, Colon) \<Rightarrow> records (AfterColon k) objects members ts
      | (AfterColon k, StringToken v) \<Rightarrow> records AfterMember objects ((k, v) # members) ts
      | (AfterMember, Comma) \<Rightarrow> records MemberNext objects members ts
      | (AfterMember, RBrace) \<Rightarrow> records AfterElement (rev members # objects) [] ts
      | (AfterElement, Comma) \<Rightarrow> records ElementNext objects [] ts
      | (AfterElement, RBracket) \<Rightarrow> records Finished objects [] ts
      | _ \<Rightarrow> None)"

text \<open>A member that occurs twice keeps its last value, as in \<^verbatim>\<open>JSON.parse\<close>.\<close>

definition article_of :: "(string \<times> string) list \<Rightarrow> article" where
  "article_of members =
     \<lparr> a_title = map_of (rev members) ''title'',
       a_summary = map_of (rev members) ''summary'',
       a_bottomLine = map_of (rev members) ''bottomLine'',
       a_category = map_of (rev members) ''category'',
       a_sourceUrl = map_of (rev members) ''sourceUrl'' \<rparr>"

definition JSON_parse_records :: "string \<Rightarrow> article list option" where
  "JSON_parse_records text =
     (case tokens None text of
        None \<Rightarrow> None
      | Some [] \<Rightarrow> None
      | Some (t # ts) \<Rightarrow>
          if t = LBracket then map_option (map article_of) (records ArrayStart [] [] ts)
          else None)"

subsection \<open>Concrete runs\<close>

text \<open>Inputs of the runs that the theorems below are instantiated at.\<close>

definition demo_date :: "nat \<Rightarrow> string" where
  "demo_date n = ''2 November 2026''"

definition entry_old :: entry where
  "entry_old =
     \<lparr> e_id = Some ''7'', e_title = Some ''Old title'', e_summary = Some ''Known'',
       e_bottomLine = Some ''Walk'', e_category = Some ''research'',
       e_publishDate = Some ''1 May 2026'', e_sourceUrl = Some ''https://example.com/a/'' \<rparr>"

definition article_fresh1 :: article where
  "article_fresh1 =
     \<lparr> a_title = Some ''Fresh one'', a_summary = Some ''S1'', a_bottomLine = Some ''B1'',
       a_category = Some ''research'', a_sourceUrl = Some ''https://example.com/n1'' \<rparr>"

definition article_fresh2 :: article where
  "article_fresh2 =
     \<lparr> a_title = Some ''Fresh two'', a_summary = Some ''S2'', a_bottomLine = None,
       a_category = Some ''genetics'', a_sourceUrl = Some ''https://example.com/n2'' \<rparr>"

definition article_known :: article where
  "article_known =
     \<lparr> a_title = Some ''Another title'', a_summary = Some ''S3'', a_bottomLine = Some ''B3'',
       a_category = Some ''research'', a_sourceUrl = Some ''https://EXAMPLE.com/a'' \<rparr>"

definition merged_state :: "mode \<Rightarrow> merge_state" where
  "merged_state m =
     \<lparr> existing =
         [make_entry m (Finite 9) (demo_date 1) article_fresh2,
          make_entry m (Finite 8) (demo_date 0) article_fresh1,
          entry_old],
       maxId = Finite 9, added = 2 \<rparr>"

definition entry_big :: entry where
  "entry_big =
     \<lparr> e_id = Some ''9007199254740991'', e_title = Some ''Old title'', e_summary = Some ''Known'',
       e_bottomLine = Some ''Walk'', e_category = Some ''research'',
       e_publishDate = Some ''1 May 2026'', e_sourceUrl = Some ''https://example.com/a/'' \<rparr>"

definition repeated_state :: "mode \<Rightarrow> merge_state" where
  "repeated_state m =
     \<lparr> existing =
         [make_entry m (Finite 9007199254740992) (demo_date 1) article_fresh2,
          make_entry m (Finite 9007199254740992) (demo_date 0) article_fresh1,
          entry_big],
       maxId = Finite 9007199254740992, added = 2 \<rparr>"

definition candidate_1 :: candidate where
  "candidate_1 =
     \<lparr> c_title = ''Study one'', c_source = ''Example News'', c_link = ''https://example.com/n1'',
       c_pubDate = ''Mon, 02 Nov 2026 08:00:00 GMT'', c_origin = ''google-news'' \<rparr>"

definition candidate_2 :: candidate where
  "candidate_2 =
     \<lparr> c_title = ''Study two'', c_source = ''ScienceDaily'', c_link = ''https://example.com/n2'',
       c_pubDate = ''Mon, 02 Nov 2026 09:00:00 GMT'', c_origin = ''sciencedaily'' \<rparr>"

definition reply_short :: string where
  "reply_short = ''[{\"title\": \"Fresh one\", \"summary\": \"S1\", \"bottomLine\": \"B1\", \"category\": \"research\", \"sourceUrl\": \"https://example.com/n1\"}]''"

definition two_records :: string where
  "two_records = ''{\"title\": \"Fresh one\", \"summary\": \"S1\", \"bottomLine\": \"B1\", \"category\": \"research\", \"sourceUrl\": \"https://example.com/n1\"}, {\"title\": \"Fresh two\", \"summary\": \"S2\", \"category\": \"genetics\", \"sourceUrl\": \"https://example.com/n2\"}''"

definition reply_prose :: string where
  "reply_prose =
     ''Here are the summaries: '' @ CHR ''['' # two_records
       @ CHR '']'' # '' Let me know if you need more.''"

definition service_reply :: "string \<Rightarrow> string \<Rightarrow> error + api_response" where
  "service_reply reply stop =
     Inr \<lparr> res_ok = True, res_status = 200, res_body = reply, res_data = Inr (reply, stop) \<rparr>"

definition network_of :: "error + api_response \<Rightarrow> network" where
  "network_of answer =
     \<lparr> fetchGoogleNews = Inr [candidate_1],
       fetchScienceDaily = Inr [candidate_2],
       fetchMedicalNewsToday = Inl (FetchFailed ''MedNewsToday RSS: 503''),
       fetchPubMed = Inr [],
       fetchOpenAlex = Inr [],
       anthropic = answer \<rparr>"

definition network_down :: network where
  "network_down =
     \<lparr> fetchGoogleNews = Inl (FetchFailed ''Google News RSS: 503''),
       fetchScienceDaily = Inl (FetchFailed ''ScienceDaily RSS: 503''),
       fetchMedicalNewsToday = Inl (FetchFailed ''MedNewsToday RSS: 503''),
       fetchPubMed = Inl (FetchFailed ''PubMed search: 503''),
       fetchOpenAlex = Inl (FetchFailed ''OpenAlex: 503''),
       anthropic = Inl (FetchFailed ''fetch failed'') \<rparr>"

definition network_many :: network where
  "network_many =
     \<lparr> fetchGoogleNews = Inr (replicate 12 candidate_1),
       fetchScienceDaily = Inr [candidate_2],
       fetchMedicalNewsToday = Inr [],
       fetchPubMed = Inr [],
       fetchOpenAlex = Inr [],
       anthropic = service_reply reply_short ''max_tokens'' \<rparr>"

definition world_fresh :: world where
  "world_fresh = \<lparr> content_file = Missing, ANTHROPIC_API_KEY = Some ''sk-test'' \<rparr>"

definition world_nokey :: world where
  "world_nokey = \<lparr> content_file = Document [entry_old], ANTHROPIC_API_KEY = None \<rparr>"

definition world_invalid :: world where
  "world_invalid = \<lparr> content_file = Invalid ''[{\"id\": \"7\",'', ANTHROPIC_API_KEY = None \<rparr>"

section \<open>Properties\<close>

subsection \<open>Strings and the deduplicator\<close>

lemma or_empty_Some [simp]: "or_empty (Some s) = s"
  by (simp add: or_empty_def)

lemma or_empty_None [simp]: "or_empty None = []"
  by (simp add: or_empty_def)

lemma array_some_iff: "array_some p xs \<longleftrightarrow> (\<exists>x \<in> set xs. p x)"
  by (induction xs) auto

lemma replace_trailing_slashes_spec:
  "replace_trailing_slashes s = strip_trailing_slashes_spec s"
proof (induction s)
  case Nil
  show ?case by (simp add: strip_trailing_slashes_spec_def)
next
  case (Cons c cs)
  let ?P = "\<lambda>d. d = CHR ''/''"
  show ?case
  proof (cases "list_all ?P cs")
    case allsl: True
    then have cs_all: "\<forall>d \<in> set (rev cs). ?P d"
      by (simp add: list_all_iff)
    show ?thesis
    proof (cases "c = CHR ''/''")
      case True
      with allsl have "\<forall>d \<in> set (rev (c # cs)). ?P d"
        by (simp add: list_all_iff)
      then have "dropWhile ?P (rev (c # cs)) = []"
        by (simp only: dropWhile_eq_Nil_conv)
      with True allsl show ?thesis
        by (simp add: strip_trailing_slashes_spec_def)
    next
      case False
      have "dropWhile ?P (rev cs @ [c]) = dropWhile ?P [c]"
        by (intro dropWhile_append2) (use cs_all in auto)
      moreover from cs_all have "dropWhile ?P (rev cs) = []"
        by (simp only: dropWhile_eq_Nil_conv)
      ultimately show ?thesis
        using False Cons.IH by (simp add: strip_trailing_slashes_spec_def)
    qed
  next
    case False
    then obtain d where d: "d \<in> set (rev cs)" "\<not> ?P d"
      by (auto simp: list_all_iff)
    then have "dropWhile ?P (rev cs @ [c]) = dropWhile ?P (rev cs) @ [c]"
      by (rule dropWhile_append1)
    with False Cons.IH show ?thesis
      by (simp add: strip_trailing_slashes_spec_def)
  qed
qed

lemma strip_spec_append_slash:
  "strip_trailing_slashes_spec (u @ ''/'') = strip_trailing_slashes_spec u"
  by (simp add: strip_trailing_slashes_spec_def)

lemma isDuplicate_spec: "isDuplicate corpus url title = is_duplicate_spec corpus url title"
  by (simp add: isDuplicate_def is_duplicate_spec_def array_some_iff
      replace_trailing_slashes_spec entry_url_key_def entry_title_key_def
      normalized_url_spec_def normalized_title_spec_def)

subsection \<open>Identifiers\<close>

lemma digit_char_value: "d < 10 \<Longrightarrow> digit_value (digit_char d) = d \<and> isDigit (digit_char d)"
proof -
  assume "d < 10"
  then have "d \<in> {0, 1, 2, 3, 4, 5, 6, 7, 8, 9}" by auto
  then show ?thesis
    by (auto simp: digit_value_def digit_char_def isDigit_def)
qed

lemma decimal_digits: "list_all isDigit (decimal n) \<and> decimal n \<noteq> []"
proof (induction n rule: decimal.induct)
  case (1 n)
  show ?case
  proof (cases "n < 10")
    case True
    then have "nat n < 10" by simp
    with True show ?thesis by (simp add: decimal.simps [of n] digit_char_value)
  next
    case False
    then have "nat (n mod 10) < 10" by simp
    with False 1 show ?thesis
      by (simp add: decimal.simps [of n] digit_char_value)
  qed
qed

lemma digits_value_append:
  "digits_value acc (xs @ ys) = digits_value (digits_value acc xs) ys"
  by (induction xs arbitrary: acc) auto

lemma digits_value_decimal: "0 \<le> n \<Longrightarrow> digits_value 0 (decimal n) = n"
proof (induction n rule: decimal.induct)
  case (1 n)
  show ?case
  proof (cases "n < 10")
    case True
    with "1.prems" have "nat n < 10" by simp
    with True "1.prems" show ?thesis
      by (simp add: decimal.simps [of n] digit_char_value)
  next
    case False
    then have m: "nat (n mod 10) < 10" by simp
    from False "1.prems" have "0 \<le> n div 10" by simp
    with False 1 have "digits_value 0 (decimal (n div 10)) = n div 10" by simp
    with False m show ?thesis
      by (simp add: decimal.simps [of n] digits_value_append digit_char_value)
  qed
qed

lemma decimal_inject: "0 \<le> a \<Longrightarrow> 0 \<le> b \<Longrightarrow> decimal a = decimal b \<Longrightarrow> a = b"
  by (metis digits_value_decimal)

lemma isDigit_not_space: "isDigit c \<Longrightarrow> \<not> isWhiteSpace c \<and> c \<noteq> CHR ''-'' \<and> c \<noteq> CHR ''+''"
  by (auto simp: isDigit_def isWhiteSpace_def)

lemma parseInt_digits:
  assumes "list_all isDigit ds" "ds \<noteq> []"
  shows "parseInt ds = to_double (digits_value 0 ds)"
proof -
  from assms obtain c cs where ds: "ds = c # cs" by (cases ds) auto
  with assms have c: "isDigit c" by simp
  from assms have tw: "takeWhile isDigit ds = ds"
    by (simp add: list_all_iff)
  from c have dw: "dropWhile isWhiteSpace ds = ds"
    using isDigit_not_space [of c] by (simp add: ds)
  from c have hd: "hd ds \<noteq> CHR ''-''" "hd ds \<noteq> CHR ''+''"
    using isDigit_not_space [of c] by (simp_all add: ds)
  show ?thesis
    by (simp add: parseInt_def Let_def dw tw hd assms(2))
qed

lemma bit_length_le: "n < 2 ^ k \<Longrightarrow> bit_length n \<le> k"
proof (induction k arbitrary: n)
  case 0
  then show ?case by (simp add: bit_length.simps [of n])
next
  case (Suc k)
  show ?case
  proof (cases "n \<le> 0")
    case True
    then show ?thesis by (simp add: bit_length.simps [of n])
  next
    case False
    from Suc.prems have "n div 2 < 2 ^ k" by simp
    from Suc.IH [OF this] False show ?thesis
      by (simp add: bit_length.simps [of n])
  qed
qed

lemma round_int_exact: "n \<le> 2 ^ 53 \<Longrightarrow> round_int n = n"
proof (cases "n = 2 ^ 53")
  case True
  have "round_int (2 ^ 53) = 2 ^ 53" by code_simp
  with True show ?thesis by simp
next
  case False
  assume "n \<le> 2 ^ 53"
  with False have "n < 2 ^ 53" by simp
  then have "bit_length n \<le> 53" by (rule bit_length_le)
  then show ?thesis by (simp add: round_int_def)
qed

lemma to_double_exact: "\<bar>i\<bar> \<le> 2 ^ 53 \<Longrightarrow> to_double i = Finite i"
proof -
  assume a: "\<bar>i\<bar> \<le> 2 ^ 53"
  then have r: "round_int \<bar>i\<bar> = \<bar>i\<bar>" by (rule round_int_exact)
  from a have "\<bar>i\<bar> < 2 ^ 1024"
    by (rule le_less_trans) simp
  then have "bit_length \<bar>i\<bar> \<le> 1024" by (rule bit_length_le)
  then show ?thesis
    by (simp add: to_double_def r Let_def)
qed

lemma increment_exact:
  assumes "0 \<le> n" "n \<le> 2 ^ 53"
  shows "increment (Finite n) = Finite (min (n + 1) (2 ^ 53))"
proof (cases "n = 2 ^ 53")
  case True
  have "increment (Finite (2 ^ 53)) = Finite (2 ^ 53)" by code_simp
  with True show ?thesis by simp
next
  case False
  with assms have "\<bar>n + 1\<bar> \<le> 2 ^ 53" by simp
  then have "to_double (n + 1) = Finite (n + 1)" by (rule to_double_exact)
  with False assms show ?thesis by (simp add: increment_def)
qed

lemma String_num_exact:
  "0 \<le> n \<Longrightarrow> n \<le> 2 ^ 53 \<Longrightarrow> String_num (Finite n) = decimal n"
  by (simp add: String_num_def String_double_def)

lemma parseInt_String_num:
  assumes "0 \<le> i" "i \<le> 2 ^ 53"
  shows "parseInt (String_num (Finite i)) = Finite i"
proof -
  have "parseInt (decimal i) = to_double (digits_value 0 (decimal i))"
    using decimal_digits [of i] by (intro parseInt_digits) simp_all
  also have "\<dots> = to_double i"
    using assms(1) by (simp add: digits_value_decimal)
  also have "\<dots> = Finite i"
    using assms by (intro to_double_exact) simp
  finally show ?thesis
    using assms by (simp add: String_num_exact)
qed

lemma parseInt_or_0_String_num:
  "0 \<le> i \<Longrightarrow> i \<le> 2 ^ 53 \<Longrightarrow> parseInt_or_0 (Some (String_num (Finite i))) = Finite i"
  by (simp add: parseInt_or_0_def parseInt_String_num or_zero_def)

lemma or_zero_not_NaN [simp]: "or_zero x \<noteq> NaN"
  by (simp add: or_zero_def)

lemma parseInt_or_0_not_NaN [simp]: "parseInt_or_0 v \<noteq> NaN"
  by (simp add: parseInt_or_0_def)

lemma Math_max_cases:
  "a \<noteq> NaN \<Longrightarrow> b \<noteq> NaN \<Longrightarrow>
     Math_max a b \<noteq> NaN \<and> (Math_max a b = a \<or> Math_max a b = b)
     \<and> \<not> number_less (Math_max a b) a \<and> \<not> number_less (Math_max a b) b"
  by (cases a; cases b) (auto simp: Math_max_def)

lemma number_less_trans:
  "number_less a b \<Longrightarrow> \<not> number_less c b \<Longrightarrow> c \<noteq> NaN \<Longrightarrow> number_less a c"
  by (cases a; cases b; cases c) auto

lemma foldl_Math_max:
  assumes "a \<noteq> NaN" and "\<forall>e \<in> set es. f e \<noteq> NaN"
  shows "foldl (\<lambda>mx e. Math_max mx (f e)) a es \<noteq> NaN
     \<and> \<not> number_less (foldl (\<lambda>mx e. Math_max mx (f e)) a es) a
     \<and> (\<forall>e \<in> set es. \<not> number_less (foldl (\<lambda>mx e. Math_max mx (f e)) a es) (f e))
     \<and> (foldl (\<lambda>mx e. Math_max mx (f e)) a es = a
         \<or> foldl (\<lambda>mx e. Math_max mx (f e)) a es \<in> f ` set es)"
  using assms
proof (induction es arbitrary: a)
  case Nil
  then show ?case by (cases a) auto
next
  case (Cons x xs)
  let ?b = "Math_max a (f x)"
  let ?r = "foldl (\<lambda>mx e. Math_max mx (f e)) ?b xs"
  from Cons.prems have fx: "f x \<noteq> NaN" by simp
  from Math_max_cases [OF Cons.prems(1) fx]
  have b: "?b \<noteq> NaN" "?b = a \<or> ?b = f x" "\<not> number_less ?b a" "\<not> number_less ?b (f x)"
    by simp_all
  from Cons.prems have "\<forall>e \<in> set xs. f e \<noteq> NaN" by simp
  from Cons.IH [OF b(1) this]
  have r: "?r \<noteq> NaN" "\<not> number_less ?r ?b"
    "\<forall>e \<in> set xs. \<not> number_less ?r (f e)" "?r = ?b \<or> ?r \<in> f ` set xs"
    by simp_all
  have "\<not> number_less ?r a"
  proof
    assume "number_less ?r a"
    from number_less_trans [OF this b(3) b(1)] r(2) show False by simp
  qed
  moreover have "\<not> number_less ?r (f x)"
  proof
    assume "number_less ?r (f x)"
    from number_less_trans [OF this b(4) b(1)] r(2) show False by simp
  qed
  ultimately show ?case using r b(2) by auto
qed

lemma maxId_of_props:
  "maxId_of es \<noteq> NaN
   \<and> \<not> number_less (maxId_of es) (Finite 0)
   \<and> (\<forall>e \<in> set es. \<not> number_less (maxId_of es) (parseInt_or_0 (e_id e)))
   \<and> (maxId_of es = Finite 0 \<or> maxId_of es \<in> (\<lambda>e. parseInt_or_0 (e_id e)) ` set es)"
  unfolding maxId_of_def
  by (rule foldl_Math_max) simp_all

lemma maxId_of_ge: "e \<in> set es \<Longrightarrow> \<not> number_less (maxId_of es) (parseInt_or_0 (e_id e))"
  using maxId_of_props [of es] by blast

lemma maxId_of_Finite_nonneg: "maxId_of es = Finite mx \<Longrightarrow> 0 \<le> mx"
  using maxId_of_props [of es] by auto

subsection \<open>The merge loop\<close>

lemma make_entry_keys:
  "entry_url_key (make_entry m x d a) = article_url_key a"
  "entry_title_key (make_entry m x d a) = article_title_key a"
  by (simp_all add: entry_url_key_def entry_title_key_def article_url_key_def
      article_title_key_def make_entry_def)

lemma isDuplicate_keys:
  assumes "a_sourceUrl a = Some url" "a_title a = Some title"
  shows "isDuplicate corpus url title \<longleftrightarrow>
     article_url_key a \<in> set (map entry_url_key corpus)
     \<or> article_title_key a \<in> set (map entry_title_key corpus)"
  using assms
  by (auto simp: isDuplicate_spec is_duplicate_spec_def article_url_key_def
      article_title_key_def intro: rev_image_eqI)

lemma subseq_accepted: "subseq (accepted urls titles arts) arts"
  by (induction arts arbitrary: urls titles) (auto intro: list_emb_Cons)

lemma merge_loop_shape:
  "merge_loop m dt arts st = Inr st' \<Longrightarrow>
     existing st'
       = rev (inserted_entries m dt (maxId st) (added st) (accepted_by (existing st) arts))
         @ existing st
     \<and> maxId st' = (increment ^^ length (accepted_by (existing st) arts)) (maxId st)
     \<and> added st' = added st + length (accepted_by (existing st) arts)"
proof (induction arts arbitrary: st)
  case Nil
  then show ?case by (simp add: accepted_by_def)
next
  case (Cons a rest)
  from Cons.prems obtain url title
    where f: "a_sourceUrl a = Some url" "a_title a = Some title"
    by (auto split: option.splits)
  show ?case
  proof (cases "isDuplicate (existing st) url title")
    case True
    with Cons.prems f have "merge_loop m dt rest st = Inr st'" by simp
    from Cons.IH [OF this] True isDuplicate_keys [OF f, of "existing st"]
    show ?thesis by (simp add: accepted_by_def)
  next
    case False
    let ?e = "make_entry m (increment (maxId st)) (dt (added st)) a"
    let ?st = "\<lparr> existing = ?e # existing st, maxId = increment (maxId st),
                 added = added st + 1 \<rparr>"
    from False Cons.prems f have "merge_loop m dt rest ?st = Inr st'"
      by (simp add: Let_def)
    from Cons.IH [OF this]
    have ih: "existing st'
       = rev (inserted_entries m dt (maxId ?st) (added ?st) (accepted_by (existing ?st) rest))
         @ existing ?st"
      "maxId st' = (increment ^^ length (accepted_by (existing ?st) rest)) (maxId ?st)"
      "added st' = added ?st + length (accepted_by (existing ?st) rest)"
      by simp_all
    have acc: "accepted_by (existing st) (a # rest) = a # accepted_by (existing ?st) rest"
      using False isDuplicate_keys [OF f, of "existing st"]
      by (simp add: accepted_by_def make_entry_keys)
    show ?thesis
      unfolding acc using ih by (simp add: funpow_swap1)
  qed
qed

lemma length_inserted_entries [simp]:
  "length (inserted_entries m dt mx ad ins) = length ins"
  by (induction ins arbitrary: mx ad) auto

lemma ids_inserted_entries:
  assumes "0 \<le> n" "n \<le> 2 ^ 53"
  shows "map e_id (inserted_entries m dt (Finite n) ad ins)
     = map (\<lambda>j. Some (String_num (Finite (min (n + int j) (2 ^ 53))))) [1..<Suc (length ins)]"
  using assms
proof (induction ins arbitrary: n ad)
  case Nil
  then show ?case by simp
next
  case (Cons a rest)
  let ?n = "min (n + 1) (2 ^ 53)"
  from Cons.prems have inc: "increment (Finite n) = Finite ?n"
    by (rule increment_exact)
  from Cons.prems have n': "0 \<le> ?n" "?n \<le> 2 ^ 53" by simp_all
  have upt: "[1..<Suc (length (a # rest))] = 1 # map Suc [1..<Suc (length rest)]"
    by (simp add: upt_conv_Cons map_Suc_upt del: upt_Suc)
  have shift: "map (\<lambda>j. Some (String_num (Finite (min (n + int j) (2 ^ 53)))))
        (map Suc [1..<Suc (length rest)])
      = map (\<lambda>j. Some (String_num (Finite (min (?n + int j) (2 ^ 53)))))
          [1..<Suc (length rest)]"
    by (simp add: o_def min_def algebra_simps del: upt_Suc)
  have "map e_id (inserted_entries m dt (Finite n) ad (a # rest))
      = Some (String_num (Finite ?n)) # map e_id (inserted_entries m dt (Finite ?n) (Suc ad) rest)"
    by (simp add: make_entry_def inc)
  also have "\<dots> = Some (String_num (Finite ?n))
      # map (\<lambda>j. Some (String_num (Finite (min (?n + int j) (2 ^ 53))))) [1..<Suc (length rest)]"
    by (simp only: Cons.IH [OF n'])
  also have "\<dots> = map (\<lambda>j. Some (String_num (Finite (min (n + int j) (2 ^ 53)))))
      [1..<Suc (length (a # rest))]"
    by (simp only: upt list.map shift) simp
  finally show ?case .
qed

lemma ids_inserted_entries_exact:
  assumes "0 \<le> n" "n + int (length ins) \<le> 2 ^ 53"
  shows "map e_id (inserted_entries m dt (Finite n) ad ins)
     = map (\<lambda>j. Some (String_num (Finite (n + int j)))) [1..<Suc (length ins)]"
proof -
  from assms have "n \<le> 2 ^ 53" by simp
  from ids_inserted_entries [OF assms(1) this]
  have "map e_id (inserted_entries m dt (Finite n) ad ins)
     = map (\<lambda>j. Some (String_num (Finite (min (n + int j) (2 ^ 53))))) [1..<Suc (length ins)]" .
  also have "\<dots> = map (\<lambda>j. Some (String_num (Finite (n + int j)))) [1..<Suc (length ins)]"
    using assms(2) by (intro map_cong) (auto simp: min_def)
  finally show ?thesis .
qed

lemma merge_loop_fails:
  "merge_loop m dt arts st = Inl e \<Longrightarrow>
     e = TypeError \<and> (\<exists>a \<in> set arts. a_sourceUrl a = None \<or> a_title a = None)"
proof (induction arts arbitrary: st)
  case Nil
  then show ?case by simp
next
  case (Cons a rest)
  show ?case
  proof (cases "a_sourceUrl a = None \<or> a_title a = None")
    case True
    with Cons.prems show ?thesis by (auto split: option.splits)
  next
    case False
    then obtain url title where f: "a_sourceUrl a = Some url" "a_title a = Some title"
      by auto
    from Cons.prems f obtain st2 where "merge_loop m dt rest st2 = Inl e"
      by (auto simp: Let_def split: if_splits)
    from Cons.IH [OF this] show ?thesis by auto
  qed
qed

lemma merge_loop_returns:
  "merge_loop m dt arts st = Inr st' \<Longrightarrow>
     \<forall>a \<in> set arts. a_sourceUrl a \<noteq> None \<and> a_title a \<noteq> None"
proof (induction arts arbitrary: st)
  case Nil
  then show ?case by simp
next
  case (Cons a rest)
  from Cons.prems obtain url title where f: "a_sourceUrl a = Some url" "a_title a = Some title"
    by (auto split: option.splits)
  from Cons.prems f obtain st2 where "merge_loop m dt rest st2 = Inr st'"
    by (auto simp: Let_def split: if_splits)
  from Cons.IH [OF this] f show ?case by simp
qed

lemma merge_loop_total:
  "\<forall>a \<in> set arts. a_sourceUrl a \<noteq> None \<and> a_title a \<noteq> None \<Longrightarrow>
     \<exists>st'. merge_loop m dt arts st = Inr st'"
  by (induction arts arbitrary: st) (auto simp: Let_def)

lemma merge_loop_keys:
  "merge_loop m dt arts st = Inr st' \<Longrightarrow>
     distinct (map entry_url_key (existing st)) \<Longrightarrow>
     distinct (map entry_title_key (existing st)) \<Longrightarrow>
     distinct (map entry_url_key (existing st')) \<and> distinct (map entry_title_key (existing st'))"
proof (induction arts arbitrary: st)
  case Nil
  then show ?case by simp
next
  case (Cons a rest)
  from Cons.prems(1) obtain url title
    where f: "a_sourceUrl a = Some url" "a_title a = Some title"
    by (auto split: option.splits)
  show ?case
  proof (cases "isDuplicate (existing st) url title")
    case True
    with Cons.prems f have "merge_loop m dt rest st = Inr st'" by simp
    from Cons.IH [OF this Cons.prems(2,3)] show ?thesis .
  next
    case False
    let ?e = "make_entry m (increment (maxId st)) (dt (added st)) a"
    let ?st = "\<lparr> existing = ?e # existing st, maxId = increment (maxId st),
                 added = added st + 1 \<rparr>"
    from False Cons.prems f have run: "merge_loop m dt rest ?st = Inr st'"
      by (simp add: Let_def)
    from False isDuplicate_keys [OF f, of "existing st"]
    have fresh: "entry_url_key ?e \<notin> entry_url_key ` set (existing st)"
      "entry_title_key ?e \<notin> entry_title_key ` set (existing st)"
      by (simp_all add: make_entry_keys)
    from fresh Cons.prems(2,3)
    have "distinct (map entry_url_key (existing ?st))" "distinct (map entry_title_key (existing ?st))"
      by simp_all
    from Cons.IH [OF run this] show ?thesis .
  qed
qed

lemma merge_shape:
  assumes "merge m dt corpus arts = Inr st"
  shows "existing st
       = rev (inserted_entries m dt (maxId_of corpus) 0 (accepted_by corpus arts)) @ corpus"
    and "added st = length (accepted_by corpus arts)"
    and "maxId st = (increment ^^ added st) (maxId_of corpus)"
  using merge_loop_shape [OF assms [unfolded merge_def]] by simp_all

lemma id_number_inserted_entries:
  assumes "0 \<le> n" "n + int (length ins) \<le> 2 ^ 53"
  shows "map id_number (inserted_entries m dt (Finite n) ad ins)
     = map (\<lambda>j. Finite (n + int j)) [1..<Suc (length ins)]"
proof -
  have "map id_number (inserted_entries m dt (Finite n) ad ins)
      = map parseInt_or_0 (map e_id (inserted_entries m dt (Finite n) ad ins))"
    by (simp add: id_number_def o_def)
  also have "\<dots> = map (\<lambda>j. parseInt_or_0 (Some (String_num (Finite (n + int j)))))
      [1..<Suc (length ins)]"
    by (simp only: ids_inserted_entries_exact [OF assms] map_map o_def)
  also have "\<dots> = map (\<lambda>j. Finite (n + int j)) [1..<Suc (length ins)]"
    using assms by (intro map_cong) (auto simp: parseInt_or_0_String_num)
  finally show ?thesis .
qed

text \<open>Identifiers stay distinct while the counter stays in the exact range.\<close>

lemma distinct_after_insert:
  assumes g: "\<And>x y. g x = g y \<Longrightarrow> parseInt_or_0 x = parseInt_or_0 y"
    and mx: "maxId_of corpus = Finite n" and bound: "n + int (length ins) \<le> 2 ^ 53"
    and d: "distinct (map (\<lambda>e. g (e_id e)) corpus)"
  shows "distinct (map (\<lambda>e. g (e_id e))
           (rev (inserted_entries m dt (Finite n) ad ins) @ corpus))"
proof -
  let ?new = "inserted_entries m dt (Finite n) ad ins"
  from mx have n0: "0 \<le> n" by (rule maxId_of_Finite_nonneg)
  have nums: "map id_number ?new = map (\<lambda>j. Finite (n + int j)) [1..<Suc (length ins)]"
    using n0 bound by (rule id_number_inserted_entries)
  have "distinct (map (\<lambda>j. Finite (n + int j)) [1..<Suc (length ins)])"
    by (simp add: distinct_map inj_on_def del: upt_Suc)
  then have dn: "distinct (map id_number ?new)" by (simp only: nums)
  have dg: "distinct (map (\<lambda>e. g (e_id e)) ?new)"
  proof -
    have "inj_on (\<lambda>e. g (e_id e)) (set ?new)"
    proof (rule inj_onI)
      fix x y
      assume x: "x \<in> set ?new" and y: "y \<in> set ?new" and eq: "g (e_id x) = g (e_id y)"
      from g [OF eq] have "id_number x = id_number y" by (simp add: id_number_def)
      with dn x y show "x = y" by (auto simp: distinct_map inj_on_def)
    qed
    moreover from dn have "distinct ?new" by (simp add: distinct_map)
    ultimately show ?thesis by (simp add: distinct_map)
  qed
  have disj: "g (e_id x) \<noteq> g (e_id e)" if x: "x \<in> set ?new" and e: "e \<in> set corpus" for x e
  proof
    assume eq: "g (e_id x) = g (e_id e)"
    from x have "id_number x \<in> set (map id_number ?new)" by simp
    then obtain j where j: "1 \<le> j" "id_number x = Finite (n + int j)"
      unfolding nums by auto
    from g [OF eq] j have "parseInt_or_0 (e_id e) = Finite (n + int j)"
      by (simp add: id_number_def)
    with maxId_of_ge [OF e] mx j(1) show False by simp
  qed
  from dg d disj show ?thesis
    by (auto simp: distinct_map)
qed

subsection \<open>The shape of a merge\<close>

lemma demo_merge:
  "merge m demo_date [entry_old] [article_fresh1, article_known, article_fresh2] = Inr (merged_state m)"
  by code_simp

lemma repeated_merge:
  "merge m demo_date [entry_big] [article_fresh1, article_fresh2] = Inr (repeated_state m)"
  by code_simp

lemma decimal_1: "decimal 1 = ''1''"
  by (simp add: decimal.simps digit_char_def)

lemma merge_order:
  assumes "merge m dt corpus arts = Inr st"
    and "maxId_of corpus = Finite mx" and "mx + int (added st) \<le> 2 ^ 53"
  shows "map id_number (take (added st) (existing st))
           = rev (map (\<lambda>n. Finite (mx + int n)) [1..<Suc (added st)])
       \<and> sorted_wrt (\<lambda>i j. number_less j i) (map id_number (take (added st) (existing st)))
       \<and> (0 < added st \<longrightarrow> id_number (hd (existing st)) = Finite (mx + int (added st)))"
proof -
  let ?ins = "accepted_by corpus arts"
  let ?new = "inserted_entries m dt (Finite mx) 0 ?ins"
  from merge_shape [OF assms(1)] assms(2)
  have ex: "existing st = rev ?new @ corpus" and ad: "added st = length ?ins"
    by simp_all
  from assms(2) have mx0: "0 \<le> mx" by (rule maxId_of_Finite_nonneg)
  from assms(3) ad have bound: "mx + int (length ?ins) \<le> 2 ^ 53" by simp
  have tk: "take (added st) (existing st) = rev ?new"
    using ex ad by simp
  have nums: "map id_number (take (added st) (existing st))
           = rev (map (\<lambda>n. Finite (mx + int n)) [1..<Suc (added st)])"
    by (simp only: tk) (simp only: rev_map [symmetric] id_number_inserted_entries [OF mx0 bound] ad)
  have "sorted_wrt (\<lambda>i j. number_less i j) (map (\<lambda>n. Finite (mx + int n)) [1..<Suc (added st)])"
    by (simp add: sorted_wrt_map del: upt_Suc)
  then have desc: "sorted_wrt (\<lambda>i j. number_less j i) (map id_number (take (added st) (existing st)))"
    by (simp only: nums sorted_wrt_rev)
  have first: "0 < added st \<longrightarrow> id_number (hd (existing st)) = Finite (mx + int (added st))"
  proof
    assume pos: "0 < added st"
    have "length (take (added st) (existing st)) = added st"
      by (simp only: tk) (simp add: ad)
    with pos have ne: "take (added st) (existing st) \<noteq> []" by auto
    have "id_number (hd (existing st)) = hd (map id_number (take (added st) (existing st)))"
      using ne pos by (simp add: hd_map)
    also have "\<dots> = last (map (\<lambda>n. Finite (mx + int n)) [1..<Suc (added st)])"
      using pos by (simp only: nums) (simp add: hd_rev del: upt_Suc)
    also have "\<dots> = Finite (mx + int (added st))"
      using pos by simp
    finally show "id_number (hd (existing st)) = Finite (mx + int (added st))" .
  qed
  from nums desc first show ?thesis by blast
qed

subsection \<open>The array-shaped substring of a reply\<close>

lemma upto_last_close_None: "upto_last_close cs = None \<longleftrightarrow> CHR '']'' \<notin> set cs"
  by (induction cs) (auto split: option.splits)

lemma upto_last_close_Some:
  "CHR '']'' \<in> set cs \<Longrightarrow>
     upto_last_close cs = Some (rev (dropWhile (\<lambda>c. c \<noteq> CHR '']'') (rev cs)))"
proof (induction cs)
  case Nil
  then show ?case by simp
next
  case (Cons c cs)
  let ?P = "\<lambda>c. c \<noteq> CHR '']''"
  show ?case
  proof (cases "CHR '']'' \<in> set cs")
    case True
    then have "dropWhile ?P (rev cs @ [c]) = dropWhile ?P (rev cs) @ [c]"
      by (intro dropWhile_append1 [of "CHR '']''"]) auto
    with True Cons.IH show ?thesis by simp
  next
    case False
    with Cons.prems have c: "c = CHR '']''" by simp
    from False have "dropWhile ?P (rev cs @ [c]) = dropWhile ?P [c]"
      by (intro dropWhile_append2) auto
    moreover from False have "upto_last_close cs = None"
      by (simp add: upto_last_close_None)
    ultimately show ?thesis using c by simp
  qed
qed

lemma match_json_array_no_close:
  "CHR '']'' \<notin> set cs \<Longrightarrow> match_json_array cs = None"
proof (induction cs)
  case Nil
  then show ?case by simp
next
  case (Cons c cs)
  then have "upto_last_close cs = None" by (simp add: upto_last_close_None)
  with Cons show ?case by simp
qed

lemma match_json_array_eq: "match_json_array t = array_substring t"
proof (induction t)
  case Nil
  then show ?case by (simp add: array_substring_def)
next
  case (Cons c cs)
  let ?P = "\<lambda>c. c \<noteq> CHR '']''"
  show ?case
  proof (cases "c = CHR ''[''")
    case False
    with Cons show ?thesis by (simp add: array_substring_def)
  next
    case bracket: True
    show ?thesis
    proof (cases "CHR '']'' \<in> set cs")
      case True
      then have "dropWhile ?P (rev cs @ [c]) = dropWhile ?P (rev cs) @ [c]"
        by (intro dropWhile_append1 [of "CHR '']''"]) auto
      with True bracket show ?thesis
        by (simp add: array_substring_def upto_last_close_Some)
    next
      case False
      then have "upto_last_close cs = None" "match_json_array cs = None"
        by (simp_all add: upto_last_close_None match_json_array_no_close)
      with False bracket show ?thesis
        by (simp add: array_substring_def)
    qed
  qed
qed

lemma array_substring_wrapped:
  assumes "CHR ''['' \<notin> set pre" "CHR '']'' \<notin> set post"
  shows "array_substring (pre @ CHR ''['' # mid @ CHR '']'' # post)
     = Some (CHR ''['' # mid @ [CHR '']''])"
proof -
  let ?s = "CHR ''['' # mid @ CHR '']'' # post"
  from assms(1) have "dropWhile (\<lambda>c. c \<noteq> CHR ''['') (pre @ ?s) = dropWhile (\<lambda>c. c \<noteq> CHR ''['') ?s"
    by (intro dropWhile_append2) auto
  then have s: "dropWhile (\<lambda>c. c \<noteq> CHR ''['') (pre @ ?s) = ?s" by simp
  have "rev ?s = rev post @ (CHR '']'' # rev mid @ [CHR ''[''])" by simp
  moreover from assms(2)
  have "dropWhile (\<lambda>c. c \<noteq> CHR '']'') (rev post @ (CHR '']'' # rev mid @ [CHR ''['']))
      = dropWhile (\<lambda>c. c \<noteq> CHR '']'') (CHR '']'' # rev mid @ [CHR ''[''])"
    by (intro dropWhile_append2) auto
  ultimately have "rev (dropWhile (\<lambda>c. c \<noteq> CHR '']'') (rev ?s)) = CHR ''['' # mid @ [CHR '']'']"
    by simp
  then show ?thesis
    unfolding array_substring_def Let_def s by simp
qed

lemma dropWhile_dropWhile_weaker:
  "(\<And>x. P x \<Longrightarrow> Q x) \<Longrightarrow> dropWhile Q (dropWhile P xs) = dropWhile Q xs"
  by (induction xs) auto

lemma array_substring_append_plain:
  assumes "CHR ''['' \<notin> set w" "CHR '']'' \<notin> set w"
  shows "array_substring (t @ w) = array_substring t"
proof (cases "CHR ''['' \<in> set t")
  case True
  let ?s = "dropWhile (\<lambda>c. c \<noteq> CHR ''['') t"
  from True have s: "dropWhile (\<lambda>c. c \<noteq> CHR ''['') (t @ w) = ?s @ w"
    by (intro dropWhile_append1 [of "CHR ''[''"]) auto
  from assms(2) have "dropWhile (\<lambda>c. c \<noteq> CHR '']'') (rev w @ rev ?s)
      = dropWhile (\<lambda>c. c \<noteq> CHR '']'') (rev ?s)"
    by (intro dropWhile_append2) auto
  with assms(2) show ?thesis
    unfolding array_substring_def Let_def s by simp
next
  case False
  then have a: "dropWhile (\<lambda>c. c \<noteq> CHR ''['') (t @ w) = dropWhile (\<lambda>c. c \<noteq> CHR ''['') w"
    by (intro dropWhile_append2) auto
  from assms(1) have b: "dropWhile (\<lambda>c. c \<noteq> CHR ''['') w = []" by auto
  from False have c: "dropWhile (\<lambda>c. c \<noteq> CHR ''['') t = []" by auto
  show ?thesis
    unfolding array_substring_def Let_def a b c by simp
qed

lemma isWhiteSpace_plain: "isWhiteSpace c \<Longrightarrow> c \<noteq> CHR ''['' \<and> c \<noteq> CHR '']''"
  by (auto simp: isWhiteSpace_def)

lemma array_substring_trim: "array_substring (trim t) = array_substring t"
proof -
  let ?u = "dropWhile isWhiteSpace t"
  let ?w = "rev (takeWhile isWhiteSpace (rev ?u))"
  have split: "?u = trim t @ ?w"
  proof -
    have "rev ?u = takeWhile isWhiteSpace (rev ?u) @ dropWhile isWhiteSpace (rev ?u)" by simp
    then have "rev (rev ?u) = rev (takeWhile isWhiteSpace (rev ?u) @ dropWhile isWhiteSpace (rev ?u))"
      by (rule arg_cong)
    then show ?thesis by (simp only: rev_rev_ident rev_append trim_def)
  qed
  have "\<forall>c \<in> set ?w. isWhiteSpace c"
    by (auto dest: set_takeWhileD)
  then have plain: "CHR ''['' \<notin> set ?w" "CHR '']'' \<notin> set ?w"
    using isWhiteSpace_plain by blast+
  have "array_substring ?u = array_substring (trim t)"
    by (subst split) (rule array_substring_append_plain [OF plain])
  moreover have "array_substring ?u = array_substring t"
    unfolding array_substring_def
    by (simp add: dropWhile_dropWhile_weaker [of isWhiteSpace] isWhiteSpace_plain)
  ultimately show ?thesis by simp
qed

subsection \<open>The runs of main\<close>

lemma Promise_all_try_source:
  "Promise_all (map try_source ss) = Inr (map (\<lambda>s. source_yield (snd s)) ss)"
  by (induction ss) (auto simp: try_source_def source_yield_def split: sum.splits)

lemma aggregate_fetched: "aggregate net = Inr (fetched net)"
  by (simp add: aggregate_def fetched_def Promise_all_try_source)

lemma main_scout_mode:
  "\<not> runs_apply args \<Longrightarrow> main P dt args w net = main_scout P dt (''--auto'' \<in> set args) w net"
  by (auto simp: main_def runs_apply_def Let_def split: option.splits)

lemma main_apply_mode:
  "runs_apply args \<Longrightarrow>
     \<exists>t. find (\<lambda>a. prefix ''--articles='' a) args = Some t \<and> main P dt args w net = main_apply P dt t w"
  by (auto simp: main_def runs_apply_def Let_def split: option.splits)

lemma fetches_no_write [simp]: "filter is_write (map (\<lambda>s. SourceFetch (fst s)) ss) = []"
  by (induction ss) auto

lemma fetches_no_request [simp]: "filter is_request (map (\<lambda>s. SourceFetch (fst s)) ss) = []"
  by (induction ss) auto

lemma summarize_no_write [simp]:
  "filter is_write (snd (summarizeWithClaude P k a items)) = []"
  by (simp add: summarizeWithClaude_def Let_def split: option.splits)

lemma summarize_missing_key:
  "k = None \<or> k = Some [] \<Longrightarrow> summarizeWithClaude P k a items = (Inl MissingApiKey, [])"
  by (auto simp: summarizeWithClaude_def)

lemma summarize_with_key:
  "key \<noteq> [] \<Longrightarrow> summarizeWithClaude P (Some key) a items
     = (read_reply P a, [SummarizeRequest key (itemsList (take MAX_ARTICLES_PER_BATCH items))])"
  by (simp add: summarizeWithClaude_def Let_def)

lemma main_scout_unfold:
  "main_scout P dt autoMode w net =
     (if newItems_of (loadExisting (content_file w)) (fetched net) = [] \<or> \<not> autoMode
      then \<lparr> outcome = Inr (), file_after = content_file w,
             trace = map (\<lambda>s. SourceFetch (fst s)) (sources net) \<rparr>
      else
        (case fst (summarizeWithClaude P (ANTHROPIC_API_KEY w) (anthropic net)
                    (newItems_of (loadExisting (content_file w)) (fetched net))) of
           Inl e \<Rightarrow>
             \<lparr> outcome = Inl e, file_after = content_file w,
               trace = map (\<lambda>s. SourceFetch (fst s)) (sources net)
                 @ snd (summarizeWithClaude P (ANTHROPIC_API_KEY w) (anthropic net)
                    (newItems_of (loadExisting (content_file w)) (fetched net))) \<rparr>
         | Inr summarized \<Rightarrow>
             (case merge Auto dt (loadExisting (content_file w)) summarized of
                Inl e \<Rightarrow>
                  \<lparr> outcome = Inl e, file_after = content_file w,
                    trace = map (\<lambda>s. SourceFetch (fst s)) (sources net)
                      @ snd (summarizeWithClaude P (ANTHROPIC_API_KEY w) (anthropic net)
                         (newItems_of (loadExisting (content_file w)) (fetched net))) \<rparr>
              | Inr st \<Rightarrow>
                  \<lparr> outcome = Inr (), file_after = Document (existing st),
                    trace = map (\<lambda>s. SourceFetch (fst s)) (sources net)
                      @ snd (summarizeWithClaude P (ANTHROPIC_API_KEY w) (anthropic net)
                         (newItems_of (loadExisting (content_file w)) (fetched net)))
                      @ [CorpusWrite (existing st)] \<rparr>)))"
  by (simp add: main_scout_def aggregate_fetched Let_def split: prod.splits sum.splits)

lemma failed_scout_writes_nothing:
  "outcome (main_scout P dt autoMode w net) = Inl e \<Longrightarrow>
     file_after (main_scout P dt autoMode w net) = content_file w
     \<and> filter is_write (trace (main_scout P dt autoMode w net)) = []"
  by (auto simp: main_scout_unfold split: if_splits sum.splits)

lemma failed_apply_writes_nothing:
  "outcome (main_apply P dt t w) = Inl e \<Longrightarrow>
     file_after (main_apply P dt t w) = content_file w
     \<and> filter is_write (trace (main_apply P dt t w)) = []"
  by (auto simp: main_apply_def split: option.splits sum.splits)

lemma failed_run_writes_nothing:
  assumes "outcome (main P dt args w net) = Inl e"
  shows "file_after (main P dt args w net) = content_file w
     \<and> filter is_write (trace (main P dt args w net)) = []"
proof (cases "runs_apply args")
  case True
  from main_apply_mode [OF True] obtain t where "main P dt args w net = main_apply P dt t w"
    by blast
  with assms failed_apply_writes_nothing [of P dt t w e] show ?thesis by simp
next
  case False
  with assms failed_scout_writes_nothing [of P dt "''--auto'' \<in> set args" w net e]
  show ?thesis by (simp add: main_scout_mode)
qed



lemma requests_of_apply: "filter is_request (trace (main_apply P dt t w)) = []"
  by (simp add: main_apply_def split: option.splits sum.splits)

lemma requests_of_scout:
  "filter is_request (trace (main_scout P dt autoMode w net)) = []
   \<or> (\<exists>key. filter is_request (trace (main_scout P dt autoMode w net))
         = [SummarizeRequest key (itemsList (take MAX_ARTICLES_PER_BATCH
              (newItems_of (loadExisting (content_file w)) (fetched net))))])"
proof (cases "missing_credential w")
  case True
  then have "summarizeWithClaude P (ANTHROPIC_API_KEY w) (anthropic net)
      (newItems_of (loadExisting (content_file w)) (fetched net)) = (Inl MissingApiKey, [])"
    by (simp add: missing_credential_def summarize_missing_key)
  then show ?thesis
    by (simp add: main_scout_unfold)
next
  case False
  then obtain key where key: "ANTHROPIC_API_KEY w = Some key" "key \<noteq> []"
    by (auto simp: missing_credential_def)
  show ?thesis
    by (simp add: main_scout_unfold key summarize_with_key split: sum.splits)
qed

lemma requests_of_run:
  "filter is_request (trace (main P dt args w net)) = []
   \<or> (\<exists>key. filter is_request (trace (main P dt args w net))
         = [SummarizeRequest key (itemsList (take MAX_ARTICLES_PER_BATCH
              (newItems_of (loadExisting (content_file w)) (fetched net))))])"
proof (cases "runs_apply args")
  case True
  from main_apply_mode [OF True] obtain t where "main P dt args w net = main_apply P dt t w"
    by blast
  then show ?thesis by (simp add: requests_of_apply)
next
  case False
  then show ?thesis
    using requests_of_scout [of P dt "''--auto'' \<in> set args" w net]
    by (simp add: main_scout_mode)
qed

lemma sources_names: "map (\<lambda>s. SourceFetch (fst s)) (sources net) = map SourceFetch source_names"
  by (simp add: sources_def source_names_def)

lemma writes_of_apply:
  "filter is_write (trace (main_apply P dt t w)) = []
   \<or> (\<exists>m arts st. merge m dt (loadExisting (content_file w)) arts = Inr st
         \<and> filter is_write (trace (main_apply P dt t w)) = [CorpusWrite (existing st)]
         \<and> file_after (main_apply P dt t w) = Document (existing st)
         \<and> outcome (main_apply P dt t w) = Inr ())"
  by (auto simp: main_apply_def split: option.splits sum.splits)

lemma writes_of_scout:
  "filter is_write (trace (main_scout P dt autoMode w net)) = []
   \<or> (\<exists>m arts st. merge m dt (loadExisting (content_file w)) arts = Inr st
         \<and> filter is_write (trace (main_scout P dt autoMode w net)) = [CorpusWrite (existing st)]
         \<and> file_after (main_scout P dt autoMode w net) = Document (existing st)
         \<and> outcome (main_scout P dt autoMode w net) = Inr ())"
  by (auto simp: main_scout_unfold split: sum.splits)

lemma writes_of_run:
  "filter is_write (trace (main P dt args w net)) = []
   \<or> (\<exists>m arts st. merge m dt (loadExisting (content_file w)) arts = Inr st
         \<and> filter is_write (trace (main P dt args w net)) = [CorpusWrite (existing st)]
         \<and> file_after (main P dt args w net) = Document (existing st)
         \<and> outcome (main P dt args w net) = Inr ())"
proof (cases "runs_apply args")
  case True
  from main_apply_mode [OF True] obtain t where "main P dt args w net = main_apply P dt t w"
    by blast
  then show ?thesis using writes_of_apply [of P dt t w] by simp
next
  case False
  then show ?thesis
    using writes_of_scout [of P dt "''--auto'' \<in> set args" w net]
    by (simp add: main_scout_mode)
qed

lemma write_is_merge:
  assumes "CorpusWrite entries \<in> set (trace (main P dt args w net))"
  shows "file_after (main P dt args w net) = Document entries
     \<and> outcome (main P dt args w net) = Inr ()
     \<and> (\<exists>m arts st. merge m dt (loadExisting (content_file w)) arts = Inr st
           \<and> entries = existing st)"
proof -
  from assms have f: "CorpusWrite entries \<in> set (filter is_write (trace (main P dt args w net)))"
    by simp
  from writes_of_run [of P dt args w net] consider
    (none) "filter is_write (trace (main P dt args w net)) = []"
    | (one) m arts st where "merge m dt (loadExisting (content_file w)) arts = Inr st"
        "filter is_write (trace (main P dt args w net)) = [CorpusWrite (existing st)]"
        "file_after (main P dt args w net) = Document (existing st)"
        "outcome (main P dt args w net) = Inr ()"
    by blast
  then show ?thesis
  proof cases
    case none
    from f [unfolded none] show ?thesis by simp
  next
    case one
    from f [unfolded one(2)] have "entries = existing st" by simp
    with one show ?thesis by blast
  qed
qed

lemma read_reply_wrapped:
  assumes "res_ok res" and "res_data res = Inr (reply, stop)" and "stop \<noteq> ''max_tokens''"
    and "reply = pre @ CHR ''['' # mid @ CHR '']'' # post"
    and "CHR ''['' \<notin> set pre" and "CHR '']'' \<notin> set post"
    and "P (CHR ''['' # mid @ [CHR '']'']) = Some found"
  shows "read_reply P (Inr res) = Inr found"
proof -
  have "match_json_array (trim reply) = Some (CHR ''['' # mid @ [CHR '']''])"
    unfolding match_json_array_eq array_substring_trim assms(4)
    by (rule array_substring_wrapped [OF assms(5,6)])
  with assms(1,2,3,7) show ?thesis
    by (simp add: read_reply_def)
qed

subsection \<open>The claims\<close>

text \<open>
  C1. \<^verbatim>\<open>isDuplicate(corpus, url, title)\<close> is true exactly when some entry of the corpus has
  the candidate's normalized URL (trailing slashes stripped, lowercased) or the
  candidate's normalized title (lowercased, trimmed). A candidate link that differs from
  a stored \<^verbatim>\<open>sourceUrl\<close> only by a trailing slash is a duplicate, as in the example of
  \<^verbatim>\<open>https://example.com/a/\<close> against \<^verbatim>\<open>https://example.com/a\<close>.
\<close>

theorem isDuplicate_iff_normalized_match:
  "(isDuplicate corpus url title \<longleftrightarrow>
      (\<exists>e \<in> set corpus.
          toLowerCase (strip_trailing_slashes_spec (or_empty (e_sourceUrl e)))
            = toLowerCase (strip_trailing_slashes_spec url)
        \<or> trim (toLowerCase (or_empty (e_title e))) = trim (toLowerCase title)))
   \<and> isDuplicate (e\<lparr>e_sourceUrl := Some (url @ ''/'')\<rparr> # corpus) url title
   \<and> isDuplicate (e\<lparr>e_sourceUrl := Some url\<rparr> # corpus) (url @ ''/'') title
   \<and> isDuplicate [e\<lparr>e_sourceUrl := Some ''https://example.com/a/''\<rparr>]
         ''https://example.com/a'' title"
proof (intro conjI)
  show "isDuplicate corpus url title \<longleftrightarrow>
      (\<exists>e \<in> set corpus.
          toLowerCase (strip_trailing_slashes_spec (or_empty (e_sourceUrl e)))
            = toLowerCase (strip_trailing_slashes_spec url)
        \<or> trim (toLowerCase (or_empty (e_title e))) = trim (toLowerCase title))"
    by (simp add: isDuplicate_spec is_duplicate_spec_def entry_url_key_def
        entry_title_key_def normalized_url_spec_def normalized_title_spec_def)
  show "isDuplicate (e\<lparr>e_sourceUrl := Some (url @ ''/'')\<rparr> # corpus) url title"
    by (simp add: isDuplicate_spec is_duplicate_spec_def entry_url_key_def
        normalized_url_spec_def strip_spec_append_slash)
  show "isDuplicate (e\<lparr>e_sourceUrl := Some url\<rparr> # corpus) (url @ ''/'') title"
    by (simp add: isDuplicate_spec is_duplicate_spec_def entry_url_key_def
        normalized_url_spec_def strip_spec_append_slash)
  show "isDuplicate [e\<lparr>e_sourceUrl := Some ''https://example.com/a/''\<rparr>]
         ''https://example.com/a'' title"
    by (simp add: isDuplicate_spec is_duplicate_spec_def entry_url_key_def
        normalized_url_spec_def strip_trailing_slashes_spec_def)
qed




text \<open>
  C3, as the code has it. In a merge of either mode, as long as the maximum of the
  existing numeric ids (zero for a corpus without a positive id) plus the number of
  insertions does not exceed \<open>2^53\<close>, the range in which the Numbers of JavaScript count
  exactly, the inserted entries receive the consecutive decimal ids that start at the
  maximum plus one: the entry inserted as number \<open>n\<close> gets the maximum plus \<open>n\<close>. When
  the ids of the corpus are unique before the merge, they are then unique after it, as
  strings and, when they were unique as numbers, as numbers.
\<close>

theorem merge_assigns_consecutive_ids:
  assumes "merge m dt corpus arts = Inr st" and "distinct (map e_id corpus)"
    and "maxId_of corpus = Finite mx" and "mx + int (added st) \<le> 2 ^ 53"
  shows "0 \<le> mx
     \<and> (\<forall>e \<in> set corpus. \<not> number_less (Finite mx) (id_number e))
     \<and> (mx = 0 \<or> Finite mx \<in> id_number ` set corpus)
     \<and> drop (added st) (existing st) = corpus
     \<and> map e_id (rev (take (added st) (existing st)))
         = map (\<lambda>n. Some (decimal (mx + int n))) [1..<Suc (added st)]
     \<and> map id_number (rev (take (added st) (existing st)))
         = map (\<lambda>n. Finite (mx + int n)) [1..<Suc (added st)]
     \<and> distinct (map e_id (existing st))
     \<and> (distinct (map id_number corpus) \<longrightarrow> distinct (map id_number (existing st)))"
proof -
  let ?ins = "accepted_by corpus arts"
  let ?new = "inserted_entries m dt (Finite mx) 0 ?ins"
  from merge_shape [OF assms(1)] assms(3)
  have ex: "existing st = rev ?new @ corpus" and ad: "added st = length ?ins"
    by simp_all
  from assms(3) have mx0: "0 \<le> mx" by (rule maxId_of_Finite_nonneg)
  from assms(4) ad have bound: "mx + int (length ?ins) \<le> 2 ^ 53" by simp
  have tk: "rev (take (added st) (existing st)) = ?new"
    and dr: "drop (added st) (existing st) = corpus"
    using ex ad by simp_all
  have top: "\<forall>e \<in> set corpus. \<not> number_less (Finite mx) (id_number e)"
    using maxId_of_ge [of _ corpus] assms(3) by (simp add: id_number_def)
  have att: "mx = 0 \<or> Finite mx \<in> id_number ` set corpus"
    using maxId_of_props [of corpus] assms(3) by (auto simp: id_number_def [abs_def])
  have "map e_id ?new = map (\<lambda>n. Some (String_num (Finite (mx + int n)))) [1..<Suc (length ?ins)]"
    using mx0 bound by (rule ids_inserted_entries_exact)
  also have "\<dots> = map (\<lambda>n. Some (decimal (mx + int n))) [1..<Suc (length ?ins)]"
    using mx0 bound by (intro map_cong) (auto simp: String_num_exact)
  finally have new_ids: "map e_id ?new
         = map (\<lambda>n. Some (decimal (mx + int n))) [1..<Suc (length ?ins)]" .
  have ids: "map e_id (rev (take (added st) (existing st)))
         = map (\<lambda>n. Some (decimal (mx + int n))) [1..<Suc (added st)]"
    by (simp only: tk) (simp only: ad new_ids)
  have nums: "map id_number (rev (take (added st) (existing st)))
         = map (\<lambda>n. Finite (mx + int n)) [1..<Suc (added st)]"
    by (simp only: tk) (simp only: ad id_number_inserted_entries [OF mx0 bound])
  have d1: "distinct (map e_id (existing st))"
    using distinct_after_insert [of "\<lambda>x. x", OF _ assms(3) bound, of m dt 0] assms(2)
    by (simp add: ex)
  have d2: "distinct (map id_number corpus) \<longrightarrow> distinct (map id_number (existing st))"
    using distinct_after_insert [of parseInt_or_0, OF _ assms(3) bound, of m dt 0]
    by (simp add: ex id_number_def [abs_def])
  from mx0 top att dr ids nums d1 d2 show ?thesis by blast
qed

theorem merge_assigns_consecutive_ids_witness:
  "merge Auto demo_date [entry_old] [article_fresh1, article_known, article_fresh2]
     = Inr (merged_state Auto)
   \<and> distinct (map e_id [entry_old])
   \<and> maxId_of [entry_old] = Finite 7
   \<and> (7 :: int) + int (added (merged_state Auto)) \<le> 2 ^ 53
   \<and> map e_id (existing (merged_state Auto)) = [Some ''9'', Some ''8'', Some ''7'']
   \<and> distinct (map e_id (existing (merged_state Auto)))"
proof -
  have d: "distinct (map e_id [entry_old])" by simp
  have mx: "maxId_of [entry_old] = Finite 7" by code_simp
  have b: "(7 :: int) + int (added (merged_state Auto)) \<le> 2 ^ 53"
    by (simp add: merged_state_def)
  have ids: "map e_id (existing (merged_state Auto)) = [Some ''9'', Some ''8'', Some ''7'']"
    by code_simp
  from merge_assigns_consecutive_ids [OF demo_merge d mx b] demo_merge d mx b ids
  show ?thesis by simp
qed

text \<open>
  C3 as stated fails: onto a corpus whose only id is \<^verbatim>\<open>9007199254740991\<close> a merge of
  two records gives both the id \<^verbatim>\<open>9007199254740992\<close>, since \<^verbatim>\<open>maxId++\<close> at \<open>2^53\<close>
  is rounded back to \<open>2^53\<close>.
\<close>

theorem ids_repeat_beyond_exact_range:
  "merge Apply demo_date [entry_big] [article_fresh1, article_fresh2] = Inr (repeated_state Apply)
   \<and> distinct (map e_id [entry_big])
   \<and> map e_id (existing (repeated_state Apply))
       = [Some ''9007199254740992'', Some ''9007199254740992'', Some ''9007199254740991'']
   \<and> \<not> distinct (map e_id (existing (repeated_state Apply)))"
  by code_simp

text \<open>
  C4. When no two entries of the corpus share a normalized \<^verbatim>\<open>sourceUrl\<close> or a normalized
  title, the corpus that a merge of either mode produces, for any list of records, has
  the same property.
\<close>

theorem merge_preserves_distinct_keys:
  assumes "merge m dt corpus arts = Inr st"
    and "distinct (map entry_url_key corpus)"
    and "distinct (map entry_title_key corpus)"
  shows "distinct (map entry_url_key (existing st))
     \<and> distinct (map entry_title_key (existing st))"
proof -
  let ?st0 = "\<lparr> existing = corpus, maxId = maxId_of corpus, added = 0 \<rparr>"
  from assms(1) have run: "merge_loop m dt arts ?st0 = Inr st"
    by (simp add: merge_def)
  from assms(2,3) have "distinct (map entry_url_key (existing ?st0))"
    "distinct (map entry_title_key (existing ?st0))"
    by simp_all
  with run show ?thesis by (rule merge_loop_keys)
qed

theorem merge_preserves_distinct_keys_witness:
  "merge Apply demo_date [entry_old] [article_fresh1, article_known, article_fresh2]
     = Inr (merged_state Apply)
   \<and> distinct (map entry_url_key [entry_old])
   \<and> distinct (map entry_title_key [entry_old])
   \<and> distinct (map entry_url_key (existing (merged_state Apply)))
   \<and> distinct (map entry_title_key (existing (merged_state Apply)))"
proof -
  have d: "distinct (map entry_url_key [entry_old])" "distinct (map entry_title_key [entry_old])"
    by simp_all
  from merge_preserves_distinct_keys [OF demo_merge d] demo_merge d
  show ?thesis by simp
qed

text \<open>
  C5. For every list of candidates the request of \<^verbatim>\<open>summarizeWithClaude\<close> lists the
  first \<^verbatim>\<open>MAX_ARTICLES_PER_BATCH = 10\<close> of them, so at most 10. A run sends at most one
  request to the summarization service, built from the first 10 new candidates: the rest
  is dropped, and no second request follows.
\<close>

theorem batch_never_exceeds_cap:
  "MAX_ARTICLES_PER_BATCH = 10
   \<and> snd (summarizeWithClaude P apiKey answer items)
       = (case apiKey of
            None \<Rightarrow> []
          | Some k \<Rightarrow> if k = [] then []
                     else [SummarizeRequest k (itemsList (take MAX_ARTICLES_PER_BATCH items))])
   \<and> length (take MAX_ARTICLES_PER_BATCH items) \<le> 10
   \<and> length (filter is_request (trace (main P dt args w net))) \<le> 1
   \<and> (\<forall>key content. SummarizeRequest key content \<in> set (trace (main P dt args w net)) \<longrightarrow>
         content = itemsList (take MAX_ARTICLES_PER_BATCH
                     (newItems_of (loadExisting (content_file w)) (fetched net)))
         \<and> length (take MAX_ARTICLES_PER_BATCH
                     (newItems_of (loadExisting (content_file w)) (fetched net))) \<le> 10)"
proof (intro conjI allI impI)
  show "MAX_ARTICLES_PER_BATCH = 10" by (simp add: MAX_ARTICLES_PER_BATCH_def)
  show "snd (summarizeWithClaude P apiKey answer items)
       = (case apiKey of
            None \<Rightarrow> []
          | Some k \<Rightarrow> if k = [] then []
                     else [SummarizeRequest k (itemsList (take MAX_ARTICLES_PER_BATCH items))])"
    by (simp add: summarizeWithClaude_def Let_def split: option.splits)
  show "length (take MAX_ARTICLES_PER_BATCH items) \<le> 10"
    by (simp add: MAX_ARTICLES_PER_BATCH_def)
  show "length (filter is_request (trace (main P dt args w net))) \<le> 1"
    using requests_of_run [of P dt args w net] by auto
  show "length (take MAX_ARTICLES_PER_BATCH
          (newItems_of (loadExisting (content_file w)) (fetched net))) \<le> 10"
    by (simp add: MAX_ARTICLES_PER_BATCH_def)
next
  fix key content
  assume "SummarizeRequest key content \<in> set (trace (main P dt args w net))"
  then have f: "SummarizeRequest key content \<in> set (filter is_request (trace (main P dt args w net)))"
    by simp
  from requests_of_run [of P dt args w net] consider
    (none) "filter is_request (trace (main P dt args w net)) = []"
    | (one) key' where "filter is_request (trace (main P dt args w net))
         = [SummarizeRequest key' (itemsList (take MAX_ARTICLES_PER_BATCH
              (newItems_of (loadExisting (content_file w)) (fetched net))))]"
    by blast
  then show "content = itemsList (take MAX_ARTICLES_PER_BATCH
                     (newItems_of (loadExisting (content_file w)) (fetched net)))"
  proof cases
    case none
    from f [unfolded none] show ?thesis by simp
  next
    case one
    from f [unfolded one] show ?thesis by simp
  qed
qed

theorem batch_never_exceeds_cap_witness:
  "SummarizeRequest ''sk-test'' (itemsList (replicate 10 candidate_1))
     \<in> set (trace (main JSON_parse_records demo_date [''--auto''] world_fresh network_many))
   \<and> length (newItems_of (loadExisting (content_file world_fresh)) (fetched network_many)) = 13
   \<and> itemsList (replicate 10 candidate_1)
       = itemsList (take MAX_ARTICLES_PER_BATCH
           (newItems_of (loadExisting (content_file world_fresh)) (fetched network_many)))"
proof -
  have sent: "SummarizeRequest ''sk-test'' (itemsList (replicate 10 candidate_1))
     \<in> set (trace (main JSON_parse_records demo_date [''--auto''] world_fresh network_many))"
    by code_simp
  have n: "length (newItems_of (loadExisting (content_file world_fresh)) (fetched network_many)) = 13"
    by code_simp
  from batch_never_exceeds_cap [where P = JSON_parse_records and dt = demo_date
      and args = "[''--auto'']" and w = world_fresh and net = network_many]
    sent n
  show ?thesis by blast
qed

text \<open>
  C6. Whatever adapters fail, the aggregator returns, without an error, the candidates of
  Google News, ScienceDaily, Medical News Today, PubMed and OpenAlex in this order, where
  a failing adapter contributes the empty list and a succeeding one all its candidates.
\<close>

theorem aggregator_isolates_failures:
  "aggregate net
     = Inr (source_yield (fetchGoogleNews net) @ source_yield (fetchScienceDaily net)
            @ source_yield (fetchMedicalNewsToday net) @ source_yield (fetchPubMed net)
            @ source_yield (fetchOpenAlex net))
   \<and> (\<forall>e. aggregate net \<noteq> Inl e)
   \<and> source_yield (Inl e) = []
   \<and> source_yield (Inr items) = items
   \<and> map fst (sources net)
       = [''Google News'', ''ScienceDaily'', ''Medical News Today'', ''PubMed'', ''OpenAlex'']"
proof -
  have "Promise_all (map try_source (sources net))
      = Inr (map (\<lambda>s. source_yield (snd s)) (sources net))"
    by (rule Promise_all_try_source)
  then have "aggregate net = Inr (concat (map (\<lambda>s. source_yield (snd s)) (sources net)))"
    by (simp add: aggregate_def)
  moreover have "concat (map (\<lambda>s. source_yield (snd s)) (sources net))
      = source_yield (fetchGoogleNews net) @ source_yield (fetchScienceDaily net)
        @ source_yield (fetchMedicalNewsToday net) @ source_yield (fetchPubMed net)
        @ source_yield (fetchOpenAlex net)"
    by (simp add: sources_def)
  ultimately have result: "aggregate net
     = Inr (source_yield (fetchGoogleNews net) @ source_yield (fetchScienceDaily net)
            @ source_yield (fetchMedicalNewsToday net) @ source_yield (fetchPubMed net)
            @ source_yield (fetchOpenAlex net))"
    by simp
  then have "\<forall>e. aggregate net \<noteq> Inl e" by simp
  moreover have "source_yield (Inl e) = []" "source_yield (Inr items) = items"
    by (simp_all add: source_yield_def)
  moreover have "map fst (sources net)
       = [''Google News'', ''ScienceDaily'', ''Medical News Today'', ''PubMed'', ''OpenAlex'']"
    by (simp add: sources_def)
  ultimately show ?thesis using result by blast
qed

text \<open>
  C7, as the code has it. A merge takes the records in input order and prepends each
  record that is not a duplicate of the corpus as mutated so far, that is, exactly the
  records of \<open>accepted_by\<close>: with \<open>k\<close> insertions onto a corpus of length \<open>L\<close> the
  result has length \<open>L + k\<close>, the new entries come first, the latest at the head, and the
  previous corpus follows them unchanged. As long as the maximum id plus \<open>k\<close> does not
  exceed \<open>2^53\<close>, the new entries stand in descending order of their ids, the highest id
  at the head. The merge returns whenever every record carries \<^verbatim>\<open>sourceUrl\<close> and
  \<^verbatim>\<open>title\<close>, and throws a \<^verbatim>\<open>TypeError\<close> otherwise.
\<close>

theorem merge_prepends_in_order:
  "case merge m dt corpus arts of
     Inl e \<Rightarrow> e = TypeError \<and> (\<exists>a \<in> set arts. a_sourceUrl a = None \<or> a_title a = None)
   | Inr st \<Rightarrow>
       (\<forall>a \<in> set arts. a_sourceUrl a \<noteq> None \<and> a_title a \<noteq> None)
       \<and> existing st
           = rev (inserted_entries m dt (maxId_of corpus) 0 (accepted_by corpus arts)) @ corpus
       \<and> added st = length (accepted_by corpus arts)
       \<and> subseq (accepted_by corpus arts) arts
       \<and> length (existing st) = length corpus + added st
       \<and> drop (added st) (existing st) = corpus
       \<and> (\<forall>mx. maxId_of corpus = Finite mx \<and> mx + int (added st) \<le> 2 ^ 53 \<longrightarrow>
             map id_number (take (added st) (existing st))
               = rev (map (\<lambda>n. Finite (mx + int n)) [1..<Suc (added st)])
             \<and> sorted_wrt (\<lambda>i j. number_less j i)
                 (map id_number (take (added st) (existing st)))
             \<and> (0 < added st \<longrightarrow>
                  id_number (hd (existing st)) = Finite (mx + int (added st))))"
proof (cases "merge m dt corpus arts")
  case (Inl e)
  with merge_loop_fails [of m dt arts _ e] show ?thesis
    by (simp add: merge_def)
next
  case (Inr st)
  note shape = merge_shape [OF Inr]
  have present: "\<forall>a \<in> set arts. a_sourceUrl a \<noteq> None \<and> a_title a \<noteq> None"
    by (rule merge_loop_returns [OF Inr [unfolded merge_def]])
  have sub: "subseq (accepted_by corpus arts) arts"
    by (simp add: accepted_by_def subseq_accepted)
  have len: "length (existing st) = length corpus + added st"
    and dr: "drop (added st) (existing st) = corpus"
    using shape(1,2) by simp_all
  have ord: "\<forall>mx. maxId_of corpus = Finite mx \<and> mx + int (added st) \<le> 2 ^ 53 \<longrightarrow>
             map id_number (take (added st) (existing st))
               = rev (map (\<lambda>n. Finite (mx + int n)) [1..<Suc (added st)])
             \<and> sorted_wrt (\<lambda>i j. number_less j i)
                 (map id_number (take (added st) (existing st)))
             \<and> (0 < added st \<longrightarrow>
                  id_number (hd (existing st)) = Finite (mx + int (added st)))"
    using merge_order [OF Inr] by blast
  from present shape(1,2) sub len dr ord show ?thesis
    unfolding Inr sum.case by blast
qed

theorem merge_prepends_in_order_witness:
  "merge Apply demo_date [entry_old] [article_fresh1, article_known, article_fresh2]
     = Inr (merged_state Apply)
   \<and> accepted_by [entry_old] [article_fresh1, article_known, article_fresh2]
       = [article_fresh1, article_fresh2]
   \<and> maxId_of [entry_old] = Finite 7
   \<and> (7 :: int) + int (added (merged_state Apply)) \<le> 2 ^ 53
   \<and> length (existing (merged_state Apply)) = length [entry_old] + added (merged_state Apply)
   \<and> map id_number (take (added (merged_state Apply)) (existing (merged_state Apply)))
       = [Finite 9, Finite 8]
   \<and> drop (added (merged_state Apply)) (existing (merged_state Apply)) = [entry_old]"
proof -
  have r: "merge Apply demo_date [entry_old] [article_fresh1, article_known, article_fresh2]
     = Inr (merged_state Apply)"
    by (rule demo_merge)
  have acc: "accepted_by [entry_old] [article_fresh1, article_known, article_fresh2]
       = [article_fresh1, article_fresh2]"
    by code_simp
  have mx: "maxId_of [entry_old] = Finite 7" by code_simp
  have b: "(7 :: int) + int (added (merged_state Apply)) \<le> 2 ^ 53"
    by (simp add: merged_state_def)
  have ids: "map id_number (take (added (merged_state Apply)) (existing (merged_state Apply)))
       = [Finite 9, Finite 8]"
    by code_simp
  from merge_prepends_in_order [where m = Apply and dt = demo_date and corpus = "[entry_old]"
      and arts = "[article_fresh1, article_known, article_fresh2]"]
  have "length (existing (merged_state Apply)) = length [entry_old] + added (merged_state Apply)
      \<and> drop (added (merged_state Apply)) (existing (merged_state Apply)) = [entry_old]"
    unfolding r sum.case by blast
  with r acc mx b ids show ?thesis by blast
qed

text \<open>
  C7 as stated fails: onto a corpus whose only id is \<^verbatim>\<open>9007199254740991\<close> the two
  new entries of a merge carry the same id, so they are not in descending order of ids.
\<close>

theorem ids_not_descending_beyond_exact_range:
  "merge Auto demo_date [entry_big] [article_fresh1, article_fresh2] = Inr (repeated_state Auto)
   \<and> added (repeated_state Auto) = 2
   \<and> map id_number (take 2 (existing (repeated_state Auto)))
       = [Finite 9007199254740992, Finite 9007199254740992]
   \<and> \<not> sorted_wrt (\<lambda>i j. number_less j i)
         (map id_number (take 2 (existing (repeated_state Auto))))"
  by code_simp

text \<open>
  C8, as the code has it. In auto mode without the credential no request is sent to the
  summarization service and the corpus file is not written; the five source adapters are
  called first, and the run fails with the missing-credential error exactly when a new
  candidate is left after the filter, and ends normally otherwise.
\<close>

theorem missing_credential_fails_at_summarizer:
  assumes "runs_auto args" and "missing_credential w"
  shows "trace (main P dt args w net) = map SourceFetch source_names
     \<and> filter is_request (trace (main P dt args w net)) = []
     \<and> file_after (main P dt args w net) = content_file w
     \<and> outcome (main P dt args w net)
         = (if newItems_of (loadExisting (content_file w)) (fetched net) = [] then Inr ()
            else Inl MissingApiKey)"
proof -
  from assms(1) have m: "main P dt args w net = main_scout P dt True w net"
    by (simp add: runs_auto_def main_scout_mode)
  from assms(2) have "summarizeWithClaude P (ANTHROPIC_API_KEY w) (anthropic net)
      (newItems_of (loadExisting (content_file w)) (fetched net)) = (Inl MissingApiKey, [])"
    by (simp add: missing_credential_def summarize_missing_key)
  then show ?thesis
    unfolding m by (simp add: main_scout_unfold sources_names source_names_def)
qed

theorem missing_credential_fails_at_summarizer_witness:
  "runs_auto [''--auto''] \<and> missing_credential world_nokey
   \<and> filter is_request (trace (main JSON_parse_records demo_date [''--auto''] world_nokey
        (network_of (service_reply reply_prose ''end_turn'')))) = []
   \<and> outcome (main JSON_parse_records demo_date [''--auto''] world_nokey
        (network_of (service_reply reply_prose ''end_turn''))) = Inl MissingApiKey"
proof -
  have a: "runs_auto [''--auto'']" by code_simp
  have b: "missing_credential world_nokey" by code_simp
  have c: "newItems_of (loadExisting (content_file world_nokey))
      (fetched (network_of (service_reply reply_prose ''end_turn''))) \<noteq> []"
    by code_simp
  from missing_credential_fails_at_summarizer [OF a b, of JSON_parse_records demo_date
      "network_of (service_reply reply_prose ''end_turn'')"] a b c
  show ?thesis by simp
qed

text \<open>
  C8 as stated fails: in a run of auto mode without the credential the five sources are
  fetched before the credential is looked at, and with no new candidate the run does not
  fail at all.
\<close>

theorem fetches_precede_credential_check:
  "runs_auto [''--auto'']
   \<and> ANTHROPIC_API_KEY world_nokey = None
   \<and> trace (main JSON_parse_records demo_date [''--auto''] world_nokey
        (network_of (service_reply reply_prose ''end_turn'')))
       = [SourceFetch ''Google News'', SourceFetch ''ScienceDaily'',
          SourceFetch ''Medical News Today'', SourceFetch ''PubMed'', SourceFetch ''OpenAlex'']
   \<and> outcome (main JSON_parse_records demo_date [''--auto''] world_nokey
        (network_of (service_reply reply_prose ''end_turn''))) = Inl MissingApiKey
   \<and> trace (main JSON_parse_records demo_date [''--auto''] world_nokey network_down)
       = [SourceFetch ''Google News'', SourceFetch ''ScienceDaily'',
          SourceFetch ''Medical News Today'', SourceFetch ''PubMed'', SourceFetch ''OpenAlex'']
   \<and> outcome (main JSON_parse_records demo_date [''--auto''] world_nokey network_down) = Inr ()"
  by code_simp

text \<open>
  C9, as the code has it. The summarizer returns the records that \<^verbatim>\<open>JSON.parse\<close> reads
  from the first opening bracket to the last closing bracket of the reply, whatever their
  number and whatever prose stands around the array; the run then merges these records
  and writes the corpus file, unless the merge throws, which leaves the file unchanged.
\<close>

theorem summarizer_returns_found_array:
  assumes "runs_auto args"
    and "ANTHROPIC_API_KEY w = Some key" and "key \<noteq> []"
    and "anthropic net = Inr res" and "res_ok res"
    and "res_data res = Inr (reply, stop)" and "stop \<noteq> ''max_tokens''"
    and "reply = pre @ CHR ''['' # mid @ CHR '']'' # post"
    and "CHR ''['' \<notin> set pre" and "CHR '']'' \<notin> set post"
    and "JSON_parse (CHR ''['' # mid @ [CHR '']'']) = Some found"
    and "newItems_of (loadExisting (content_file w)) (fetched net) \<noteq> []"
  shows "fst (summarizeWithClaude JSON_parse (ANTHROPIC_API_KEY w) (anthropic net)
            (newItems_of (loadExisting (content_file w)) (fetched net))) = Inr found
     \<and> (case merge Auto dt (loadExisting (content_file w)) found of
          Inl e \<Rightarrow> outcome (main JSON_parse dt args w net) = Inl e
                 \<and> file_after (main JSON_parse dt args w net) = content_file w
        | Inr st \<Rightarrow> outcome (main JSON_parse dt args w net) = Inr ()
                 \<and> file_after (main JSON_parse dt args w net) = Document (existing st))"
proof -
  from assms(1) have m: "main JSON_parse dt args w net = main_scout JSON_parse dt True w net"
    by (simp add: runs_auto_def main_scout_mode)
  have r: "read_reply JSON_parse (anthropic net) = Inr found"
    unfolding assms(4) by (rule read_reply_wrapped [where P = JSON_parse]) fact+
  show ?thesis
    unfolding m using assms(12)
    by (simp add: main_scout_unfold assms(2) summarize_with_key [OF assms(3)] r split: sum.splits)
qed

theorem summarizer_returns_found_array_witness:
  "runs_auto [''--auto'']
   \<and> reply_prose = ''Here are the summaries: '' @ CHR ''['' # two_records
       @ CHR '']'' # '' Let me know if you need more.''
   \<and> JSON_parse_records (CHR ''['' # two_records @ [CHR '']'']) = Some [article_fresh1, article_fresh2]
   \<and> fst (summarizeWithClaude JSON_parse_records (ANTHROPIC_API_KEY world_fresh)
        (anthropic (network_of (service_reply reply_prose ''end_turn'')))
        (newItems_of (loadExisting (content_file world_fresh))
           (fetched (network_of (service_reply reply_prose ''end_turn'')))))
       = Inr [article_fresh1, article_fresh2]"
proof -
  let ?net = "network_of (service_reply reply_prose ''end_turn'')"
  let ?res = "\<lparr> res_ok = True, res_status = 200, res_body = reply_prose,
                res_data = Inr (reply_prose, ''end_turn'') \<rparr>"
  have a: "runs_auto [''--auto'']" by code_simp
  have k: "ANTHROPIC_API_KEY world_fresh = Some ''sk-test''" "''sk-test'' \<noteq> []"
    by (simp_all add: world_fresh_def)
  have n: "anthropic ?net = Inr ?res" "res_ok ?res" "res_data ?res = Inr (reply_prose, ''end_turn'')"
    "''end_turn'' \<noteq> ''max_tokens''"
    by (simp_all add: network_of_def service_reply_def)
  have r: "reply_prose = ''Here are the summaries: '' @ CHR ''['' # two_records
       @ CHR '']'' # '' Let me know if you need more.''"
    by (simp add: reply_prose_def)
  have b: "CHR ''['' \<notin> set ''Here are the summaries: ''"
    "CHR '']'' \<notin> set '' Let me know if you need more.''"
    by simp_all
  have p: "JSON_parse_records (CHR ''['' # two_records @ [CHR '']'']) = Some [article_fresh1, article_fresh2]"
    by code_simp
  have c: "newItems_of (loadExisting (content_file world_fresh)) (fetched ?net) \<noteq> []"
    by code_simp
  from summarizer_returns_found_array [where JSON_parse = JSON_parse_records and dt = demo_date,
      OF a k n r b p c] a r p
  show ?thesis by blast
qed

text \<open>
  C9 as stated fails: a reply with one record for two candidates, and a reply with prose
  around the array, are both accepted, merged and written to the corpus file.
\<close>

theorem short_or_wrapped_reply_is_persisted:
  "length (newItems_of (loadExisting (content_file world_fresh))
      (fetched (network_of (service_reply reply_short ''end_turn'')))) = 2
   \<and> JSON_parse_records reply_short = Some [article_fresh1]
   \<and> content_file world_fresh = Missing
   \<and> outcome (main JSON_parse_records demo_date [''--auto''] world_fresh
        (network_of (service_reply reply_short ''end_turn''))) = Inr ()
   \<and> file_after (main JSON_parse_records demo_date [''--auto''] world_fresh
        (network_of (service_reply reply_short ''end_turn'')))
       = Document [make_entry Auto (Finite 1) (demo_date 0) article_fresh1]
   \<and> outcome (main JSON_parse_records demo_date [''--auto''] world_fresh
        (network_of (service_reply reply_prose ''end_turn''))) = Inr ()
   \<and> file_after (main JSON_parse_records demo_date [''--auto''] world_fresh
        (network_of (service_reply reply_prose ''end_turn'')))
       = Document [make_entry Auto (Finite 2) (demo_date 1) article_fresh2,
                   make_entry Auto (Finite 1) (demo_date 0) article_fresh1]"
  by code_simp

text \<open>
  C10. When the corpus file is missing, unreadable or not JSON, \<^verbatim>\<open>loadExisting\<close> returns
  the empty list: no candidate is a duplicate of it, the maximum id is zero so that new
  ids start at 1, and a run that writes the corpus writes the newly inserted entries only,
  with the ids 1 to \<open>k\<close> (the counter stays at \<open>2^53\<close> once it has reached it).
\<close>

theorem unreadable_corpus_is_empty:
  assumes "content_file w = Missing \<or> content_file w = Unreadable
     \<or> (\<exists>t. content_file w = Invalid t)"
  shows "loadExisting (content_file w) = []
     \<and> \<not> isDuplicate (loadExisting (content_file w)) url title
     \<and> newItems_of (loadExisting (content_file w)) items = items
     \<and> maxId_of (loadExisting (content_file w)) = Finite 0
     \<and> (\<forall>entries. CorpusWrite entries \<in> set (trace (main P dt args w net)) \<longrightarrow>
           file_after (main P dt args w net) = Document entries
           \<and> map e_id (rev entries)
               = map (\<lambda>n. Some (String_num (Finite (min (int n) (2 ^ 53)))))
                   [1..<Suc (length entries)]
           \<and> (length entries \<le> 2 ^ 53 \<longrightarrow>
                 map e_id (rev entries) = map (\<lambda>n. Some (decimal (int n))) [1..<Suc (length entries)])
           \<and> (entries \<noteq> [] \<longrightarrow> e_id (last entries) = Some ''1'')
           \<and> (\<exists>m ins. entries = rev (inserted_entries m dt (Finite 0) 0 ins)))"
proof -
  from assms have empty: "loadExisting (content_file w) = []" by auto
  have nodup: "\<not> isDuplicate [] url title" for url title
    by (simp add: isDuplicate_def)
  have written: "file_after (main P dt args w net) = Document entries
           \<and> map e_id (rev entries)
               = map (\<lambda>n. Some (String_num (Finite (min (int n) (2 ^ 53)))))
                   [1..<Suc (length entries)]
           \<and> (length entries \<le> 2 ^ 53 \<longrightarrow>
                 map e_id (rev entries) = map (\<lambda>n. Some (decimal (int n))) [1..<Suc (length entries)])
           \<and> (entries \<noteq> [] \<longrightarrow> e_id (last entries) = Some ''1'')
           \<and> (\<exists>m ins. entries = rev (inserted_entries m dt (Finite 0) 0 ins))"
    if "CorpusWrite entries \<in> set (trace (main P dt args w net))" for entries
  proof -
    from write_is_merge [OF that] obtain m arts st where
      fa: "file_after (main P dt args w net) = Document entries" and
      mg: "merge m dt [] arts = Inr st" and st: "entries = existing st"
      unfolding empty by blast
    let ?ins = "accepted_by [] arts"
    let ?new = "inserted_entries m dt (Finite 0) 0 ?ins"
    from merge_shape(1) [OF mg] have ins: "entries = rev ?new"
      by (simp add: st maxId_of_def)
    then have len: "length entries = length ?ins" by simp
    have ids: "map e_id (rev entries)
        = map (\<lambda>n. Some (String_num (Finite (min (int n) (2 ^ 53))))) [1..<Suc (length entries)]"
      using ids_inserted_entries [of 0 m dt 0 ?ins] by (simp add: ins del: upt_Suc)
    have exact: "map e_id (rev entries) = map (\<lambda>n. Some (decimal (int n))) [1..<Suc (length entries)]"
      if "length entries \<le> 2 ^ 53"
    proof -
      from that have b: "(0 :: int) + int (length ?ins) \<le> 2 ^ 53"
        by (simp add: len [symmetric])
      have "map e_id ?new
          = map (\<lambda>n. Some (String_num (Finite (0 + int n)))) [1..<Suc (length ?ins)]"
        using b by (intro ids_inserted_entries_exact) simp_all
      also have "\<dots> = map (\<lambda>n. Some (decimal (int n))) [1..<Suc (length ?ins)]"
        using b by (intro map_cong) (auto simp: String_num_exact)
      finally show ?thesis by (simp add: ins del: upt_Suc)
    qed
    have first: "e_id (last entries) = Some ''1''" if "entries \<noteq> []"
    proof -
      from that ins obtain a rest where ar: "?ins = a # rest"
        by (cases ?ins) auto
      have "increment (Finite 0) = Finite 1"
        using increment_exact [of 0] by simp
      then have "e_id (hd ?new) = Some ''1''"
        by (simp add: ar make_entry_def String_num_exact decimal_1)
      moreover have "last entries = hd ?new"
        using that by (simp add: ins last_rev)
      ultimately show ?thesis by simp
    qed
    from fa ids exact first ins show ?thesis by blast
  qed
  have b: "\<not> isDuplicate (loadExisting (content_file w)) url title"
    unfolding empty by (rule nodup)
  have c: "newItems_of (loadExisting (content_file w)) items = items"
    unfolding empty by (simp add: newItems_of_def nodup)
  have d: "maxId_of (loadExisting (content_file w)) = Finite 0"
    unfolding empty by (simp add: maxId_of_def)
  from empty b c d written show ?thesis by blast
qed

theorem unreadable_corpus_is_empty_witness:
  "content_file world_invalid = Invalid ''[{\"id\": \"7\",''
   \<and> loadExisting (content_file world_invalid) = []
   \<and> CorpusWrite [make_entry Apply (Finite 1) (demo_date 0) article_fresh1]
       \<in> set (trace (main JSON_parse_records demo_date
                 [''--apply'', ''--articles='' @ reply_short] world_invalid network_down))
   \<and> file_after (main JSON_parse_records demo_date
         [''--apply'', ''--articles='' @ reply_short] world_invalid network_down)
       = Document [make_entry Apply (Finite 1) (demo_date 0) article_fresh1]
   \<and> e_id (make_entry Apply (Finite 1) (demo_date 0) article_fresh1) = Some ''1''"
proof -
  have f: "content_file world_invalid = Invalid ''[{\"id\": \"7\",''"
    by (simp add: world_invalid_def)
  then have h: "content_file world_invalid = Missing \<or> content_file world_invalid = Unreadable
     \<or> (\<exists>t. content_file world_invalid = Invalid t)"
    by simp
  have wr: "CorpusWrite [make_entry Apply (Finite 1) (demo_date 0) article_fresh1]
       \<in> set (trace (main JSON_parse_records demo_date
                 [''--apply'', ''--articles='' @ reply_short] world_invalid network_down))"
    by code_simp
  have one: "e_id (make_entry Apply (Finite 1) (demo_date 0) article_fresh1) = Some ''1''"
    by code_simp
  from unreadable_corpus_is_empty [OF h, of _ _ _ JSON_parse_records demo_date
      "[''--apply'', ''--articles='' @ reply_short]" network_down] f wr one
  show ?thesis by blast
qed

end
